theory Spec2Isabelle
  imports Complex_Main "HOL-Library.AList"
begin

section \<open>Data model of \<^verbatim>\<open>rpc.py\<close>\<close>

text \<open>
  A reading of \<^verbatim>\<open>datetime.datetime.utcnow()\<close>. The clock is a function of the number of
  readings made so far, so two readings in one loop may differ.
\<close>

type_synonym datetime = nat

text \<open>
  The class \<^verbatim>\<open>Payout\<close>, the single table of the sqlite database. The autoincrement
  primary key \<^verbatim>\<open>id\<close> is the position of the row in the table: rows are only ever
  appended and never deleted, so a position names one row for ever, as the key does.
\<close>

record Payout =
  pid :: string
  user :: string
  amount :: int
  txid :: "string option"
  associated :: bool
  locked :: bool
  lock_time :: "datetime option"
  paid_time :: "datetime option"
  assoc_time :: "datetime option"
  pull_time :: "datetime option"

text \<open>
  Exceptions. What the wallet library raises is not part of the repository; the code only
  asks of such an exception whether \<^verbatim>\<open>except CoinRPCException\<close> and whether
  \<^verbatim>\<open>except JSONRPCException\<close> catch it, so a wallet exception carries these two answers.
\<close>

datatype exn =
    RPCException
  | AssertionError
  | SystemExit
  | WalletExn bool bool
  | OtherException

fun is_CoinRPCException :: "exn \<Rightarrow> bool" where
  "is_CoinRPCException (WalletExn c j) = c"
| "is_CoinRPCException _ = False"

fun is_JSONRPCException :: "exn \<Rightarrow> bool" where
  "is_JSONRPCException (WalletExn c j) = j"
| "is_JSONRPCException _ = False"

datatype 'a reply = Ok 'a | Fails exn

datatype pyval = PyNone | PyTrue | PyFalse | PyStr string

datatype outcome = Return pyval | Raise exn

text \<open>
  A number of the recipient dictionary handed to the wallet: the integer sums of the
  payouts, and the float literal \<^verbatim>\<open>1.1\<close> of line 337, kept as its source text.
\<close>

datatype pynum = PyInt int | PyFloat string

text \<open>Calls to the outside and database transactions, in the order they happen.\<close>

datatype event =
    WalletGetInfo
  | WalletGetBalance
  | WalletPassphrase string
  | WalletSetTxFee rat
  | WalletSendMany string "(string \<times> pynum) list"
  | WalletGetTransaction string
  | RemoteGetPayouts string
  | RemoteGetUnconfirmed string
  | RemoteConfirm "string list" "(string \<times> int) list"
  | RemoteUpdate "string option" "string list" string
  | DbCommit "Payout list"
  | DbRollback
  | PullReport nat nat nat

text \<open>
  The state of one process: the rows as the SQLAlchemy session sees them (with its
  uncommitted changes), the rows committed to the sqlite file, the number of clock
  readings made, and the trace of events.
\<close>

record st =
  session :: "Payout list"
  durable :: "Payout list"
  ticks :: nat
  trace :: "event list"

record config =
  valid_address_versions :: "nat list"
  currency_code :: string
  trans_confirmations :: int
  payout_fee :: rat
  wallet_pass :: string
  account :: string

text \<open>
  An object of the remote's list of unconfirmed transactions: its \<^verbatim>\<open>txid\<close>, and its
  \<^verbatim>\<open>fee\<close> key, which may be missing (\<open>None\<close>), present and \<^verbatim>\<open>null\<close>, or a number.
\<close>

datatype json_fee = JNull | JNum int

record remote_tx =
  rtxid :: string
  rfee :: "json_fee option"

text \<open>
  The wallet's answer to \<^verbatim>\<open>gettransaction\<close>: the confirmations, and the \<^verbatim>\<open>fee\<close> key,
  which may be missing; line 213 asserts that a fee is a \<^verbatim>\<open>decimal.Decimal\<close>.
\<close>

datatype wallet_fee = DecimalFee rat | NotDecimal

record wallet_tx =
  confirmations :: int
  wfee :: "wallet_fee option"

text \<open>
  Everything outside the process: the clock, the operator's answer to \<^verbatim>\<open>raw_input\<close>, the
  library function \<^verbatim>\<open>get_bcaddress_version\<close> of \<^verbatim>\<open>cryptokit\<close> (the version byte of an address,
  \<^verbatim>\<open>None\<close> for an invalid one), the wallet's replies and the remote's replies.
  \<open>getbalance w k\<close> is the reply to the \<open>k\<close>-th balance query of the process.
\<close>

record world =
  utcnow :: "nat \<Rightarrow> datetime"
  raw_input :: string
  get_bcaddress_version :: "string \<Rightarrow> nat option"
  getinfo :: "unit reply"
  getbalance :: "nat \<Rightarrow> rat reply"
  walletpassphrase :: "unit reply"
  settxfee :: "unit reply"
  sendmany :: "string reply"
  gettransaction :: "string \<Rightarrow> wallet_tx reply"
  get_payouts :: "(string \<times> int \<times> string) list reply"
  get_unconfirmed :: "(bool \<times> remote_tx list) reply"
  confirm_transactions :: "bool reply"
  update_payouts :: "string option \<Rightarrow> string list \<Rightarrow> bool reply"

definition emit :: "event \<Rightarrow> st \<Rightarrow> st" where
  "emit e s = s\<lparr>trace := trace s @ [e]\<rparr>"

text \<open>\<^verbatim>\<open>self.db.session.commit()\<close> and \<^verbatim>\<open>self.db.session.rollback()\<close>.\<close>

definition commit :: "st \<Rightarrow> st" where
  "commit s = s\<lparr>durable := session s, trace := trace s @ [DbCommit (session s)]\<rparr>"

definition rollback :: "st \<Rightarrow> st" where
  "rollback s = s\<lparr>session := durable s, trace := trace s @ [DbRollback]\<rparr>"

text \<open>
  \<^verbatim>\<open>entry\<close> builds one \<^verbatim>\<open>RPCClient\<close>, hence one session, per process and runs one
  command in it: a process starts with a session that holds no change.
\<close>

definition fresh :: "Payout list \<Rightarrow> st" where
  "fresh rows = \<lparr>session = rows, durable = rows, ticks = 0, trace = []\<rparr>"

text \<open>
  \<^verbatim>\<open>int(x * 100000000)\<close> on a \<^verbatim>\<open>Decimal\<close>: exact product, then truncation towards zero.
\<close>

definition py_int :: "rat \<Rightarrow> int" where
  "py_int q = (if q < 0 then - \<lfloor>- q\<rfloor> else \<lfloor>q\<rfloor>)"

definition satoshi :: "rat \<Rightarrow> int" where
  "satoshi x = py_int (x * 100000000)"

section \<open>\<^verbatim>\<open>poke_rpc\<close>\<close>

definition poke_rpc :: "world \<Rightarrow> st \<Rightarrow> exn option \<times> st" where
  "poke_rpc w s =
     (case getinfo w of
        Ok _ \<Rightarrow> (None, emit WalletGetInfo s)
      | Fails e \<Rightarrow>
          (Some (if is_JSONRPCException e then RPCException else e), emit WalletGetInfo s))"

section \<open>\<^verbatim>\<open>reset_all_locked\<close>\<close>

text \<open>
  \<^verbatim>\<open>query(Payout).filter_by(locked=True).update({Payout.locked: False})\<close>, then the commit.
  With \<^verbatim>\<open>simulate\<close> the method leaves through \<^verbatim>\<open>exit(0)\<close> before it writes.
\<close>

definition reset_all_locked :: "bool \<Rightarrow> st \<Rightarrow> outcome \<times> st" where
  "reset_all_locked simulate s =
     (if simulate then (Raise SystemExit, s)
      else (Return PyNone,
            commit (s\<lparr>session :=
              map (\<lambda>p. if locked p then p\<lparr>locked := False\<rparr> else p) (session s)\<rparr>)))"

section \<open>\<^verbatim>\<open>pull_payouts\<close>\<close>

text \<open>
  \<^verbatim>\<open>query(Payout).filter_by(pid=pid).first()\<close> flushes the session first, so it sees the rows
  added earlier in the same loop.
\<close>

definition new_payout :: "string \<Rightarrow> string \<Rightarrow> int \<Rightarrow> datetime \<Rightarrow> Payout" where
  "new_payout p u a t =
     \<lparr>pid = p, user = u, amount = a, txid = None, associated = False, locked = False,
      lock_time = None, paid_time = None, assoc_time = None, pull_time = Some t\<rparr>"

definition address_valid :: "config \<Rightarrow> world \<Rightarrow> string \<Rightarrow> bool" where
  "address_valid cfg w u =
     (case get_bcaddress_version w u of
        None \<Rightarrow> False
      | Some v \<Rightarrow> v \<in> set (valid_address_versions cfg))"

fun pull_loop ::
  "config \<Rightarrow> world \<Rightarrow> (string \<times> int \<times> string) list \<Rightarrow> nat \<times> nat \<times> nat \<Rightarrow> st \<Rightarrow>
   (nat \<times> nat \<times> nat) \<times> st"
where
  "pull_loop cfg w [] counts s = (counts, s)"
| "pull_loop cfg w ((u, a, p) # rest) (new, repeat, invalid) s =
     (if address_valid cfg w u then
        (case find (\<lambda>r. pid r = p) (session s) of
           None \<Rightarrow>
             pull_loop cfg w rest (new + 1, repeat, invalid)
               (s\<lparr>session := session s @ [new_payout p u a (utcnow w (ticks s))],
                  ticks := Suc (ticks s)\<rparr>)
         | Some _ \<Rightarrow> pull_loop cfg w rest (new, repeat + 1, invalid) s)
      else pull_loop cfg w rest (new, repeat, invalid + 1) s)"

text \<open>
  The three counters are what the method logs at its end; the event \<open>PullReport\<close> keeps
  them. A failing request to the remote raises before anything else is done.
\<close>

definition pull_payouts :: "config \<Rightarrow> world \<Rightarrow> bool \<Rightarrow> st \<Rightarrow> outcome \<times> st" where
  "pull_payouts cfg w simulate s =
     (let s1 = emit (RemoteGetPayouts (currency_code cfg)) s in
      case get_payouts w of
        Fails e \<Rightarrow> (Raise e, s1)
      | Ok payouts \<Rightarrow>
          if \<not> simulate then
            (case pull_loop cfg w payouts (0, 0, 0) s1 of
               ((new, repeat, invalid), s2) \<Rightarrow>
                 (Return PyTrue, emit (PullReport new repeat invalid) (commit s2)))
          else (Return PyTrue, emit (PullReport 0 0 0) s1))"

section \<open>\<^verbatim>\<open>payout\<close>\<close>

text \<open>Python's \<^verbatim>\<open>dict.setdefault\<close> on an association list; a new key goes to the end.\<close>

fun setdefault :: "'k \<Rightarrow> 'v \<Rightarrow> ('k \<times> 'v) list \<Rightarrow> ('k \<times> 'v) list" where
  "setdefault k v [] = [(k, v)]"
| "setdefault k v (p # ps) = (if fst p = k then p # ps else p # setdefault k v ps)"

text \<open>\<^verbatim>\<open>query(Payout).filter_by(txid=None, locked=False).all()\<close>: the selected rows.\<close>

definition unpaid_unlocked :: "Payout list \<Rightarrow> nat list" where
  "unpaid_unlocked rows =
     filter (\<lambda>i. txid (rows ! i) = None \<and> \<not> locked (rows ! i)) [0..<length rows]"

text \<open>
  The loop of lines 286 to 295: sum the amounts and collect the pids per user, and lock
  each payout in the session.
\<close>

fun lock_loop ::
  "world \<Rightarrow> nat list \<Rightarrow> (string \<times> int) list \<Rightarrow> (string \<times> string list) list \<Rightarrow> st \<Rightarrow>
   (string \<times> int) list \<times> (string \<times> string list) list \<times> st"
where
  "lock_loop w [] user_payout_amounts pids s = (user_payout_amounts, pids, s)"
| "lock_loop w (i # rest) user_payout_amounts pids s =
     (let p = session s ! i in
      lock_loop w rest
        (AList.map_entry (user p) (\<lambda>v. v + amount p) (setdefault (user p) 0 user_payout_amounts))
        (AList.map_entry (user p) (\<lambda>l. l @ [pid p]) (setdefault (user p) [] pids))
        (s\<lparr>session := (session s)[i := p\<lparr>locked := True, lock_time := Some (utcnow w (ticks s))\<rparr>],
           ticks := Suc (ticks s)\<rparr>))"

text \<open>The loops of lines 353 and 358.\<close>

fun unlock_loop :: "nat list \<Rightarrow> st \<Rightarrow> st" where
  "unlock_loop [] s = s"
| "unlock_loop (i # rest) s =
     unlock_loop rest (s\<lparr>session := (session s)[i := (session s ! i)\<lparr>locked := False\<rparr>]\<rparr>)"

fun paid_loop :: "world \<Rightarrow> string \<Rightarrow> nat list \<Rightarrow> st \<Rightarrow> st" where
  "paid_loop w coin_txid [] s = s"
| "paid_loop w coin_txid (i # rest) s =
     paid_loop w coin_txid rest
       (s\<lparr>session := (session s)[i := (session s ! i)
             \<lparr>locked := False, txid := Some coin_txid, paid_time := Some (utcnow w (ticks s))\<rparr>],
          ticks := Suc (ticks s)\<rparr>)"

text \<open>
  \<^verbatim>\<open>payout_many\<close>: unlock the wallet when a passphrase is configured, set the fee, send.
  The first failing call ends it.
\<close>

definition payout_many ::
  "config \<Rightarrow> world \<Rightarrow> (string \<times> pynum) list \<Rightarrow> st \<Rightarrow> string reply \<times> st"
where
  "payout_many cfg w recip s =
     (let send = (\<lambda>s1.
            let s2 = emit (WalletSetTxFee (payout_fee cfg)) s1 in
            case settxfee w of
              Fails e \<Rightarrow> (Fails e, s2)
            | Ok _ \<Rightarrow> (sendmany w, emit (WalletSendMany (account cfg) recip) s2))
      in if wallet_pass cfg \<noteq> [] then
           (let s1 = emit (WalletPassphrase (wallet_pass cfg)) s in
            case walletpassphrase w of
              Fails e \<Rightarrow> (Fails e, s1)
            | Ok _ \<Rightarrow> send s1)
         else send s)"

text \<open>
  The recipients of the real send: the summed amounts, and the entry \<^verbatim>\<open>"test"\<close> that
  line 337 stores in the dictionary before the call.
\<close>

definition recipients :: "(string \<times> int) list \<Rightarrow> (string \<times> pynum) list" where
  "recipients user_payout_amounts =
     AList.update ''test'' (PyFloat ''1.1'') (map (\<lambda>(u, a). (u, PyInt a)) user_payout_amounts)"

definition simulated_txid :: string where
  "simulated_txid = replicate 64 (CHR ''1'')"

text \<open>The \<^verbatim>\<open>else\<close> branch of the \<^verbatim>\<open>try\<close>: record the transaction, commit, return it.\<close>

definition record_paid :: "world \<Rightarrow> string \<Rightarrow> nat list \<Rightarrow> st \<Rightarrow> outcome \<times> st" where
  "record_paid w coin_txid payouts s =
     (Return (PyStr coin_txid), commit (paid_loop w coin_txid payouts s))"

text \<open>
  The \<^verbatim>\<open>except CoinRPCException\<close> branch: read the balance again; when it differs, return
  \<^verbatim>\<open>False\<close> and leave the rows as committed; when it is the same, unlock the payouts in the
  session. The method ends there: nothing after the \<^verbatim>\<open>try\<close> statement commits.
\<close>

definition send_failed :: "world \<Rightarrow> int \<Rightarrow> nat list \<Rightarrow> st \<Rightarrow> outcome \<times> st" where
  "send_failed w balance payouts s =
     (let s1 = emit WalletGetBalance s in
      case getbalance w 1 of
        Fails e \<Rightarrow> (Raise e, s1)
      | Ok b \<Rightarrow>
          if satoshi b \<noteq> balance then (Return PyFalse, s1)
          else (Return PyNone, unlock_loop payouts s1))"

definition payout :: "config \<Rightarrow> world \<Rightarrow> bool \<Rightarrow> st \<Rightarrow> outcome \<times> st" where
  "payout cfg w simulate s =
     (case poke_rpc w s of
        (Some e, s1) \<Rightarrow> (Raise e, s1)
      | (None, s1) \<Rightarrow>
          let payouts = unpaid_unlocked (session s1) in
          if payouts = [] then (Return PyTrue, s1)
          else
            (case lock_loop w payouts [] [] s1 of
               (user_payout_amounts, pids, s2) \<Rightarrow>
                 let total_out = sum_list (map snd user_payout_amounts);
                     s3 = emit WalletGetBalance s2
                 in case getbalance w 0 of
                      Fails e \<Rightarrow> (Raise e, s3)
                    | Ok b \<Rightarrow>
                        let balance = satoshi b in
                        if balance < total_out then (Return PyFalse, rollback s3)
                        else if simulate then
                          (let s4 = rollback s3 in
                           if raw_input w \<noteq> ''y'' then (Return PyTrue, s4)
                           else record_paid w simulated_txid payouts s4)
                        else
                          (let s4 = commit s3 in
                           case payout_many cfg w (recipients user_payout_amounts) s4 of
                             (Fails e, s5) \<Rightarrow>
                               if is_CoinRPCException e then send_failed w balance payouts s5
                               else (Raise e, s5)
                           | (Ok coin_txid, s5) \<Rightarrow> record_paid w coin_txid payouts s5)))"

section \<open>\<^verbatim>\<open>confirm_trans\<close>\<close>

text \<open>\<^verbatim>\<open>not obj.get("fee")\<close>: the key is missing, or its value is \<^verbatim>\<open>null\<close> or zero.\<close>

definition fee_falsy :: "remote_tx \<Rightarrow> bool" where
  "fee_falsy obj =
     (case rfee obj of None \<Rightarrow> True | Some JNull \<Rightarrow> True | Some (JNum n) \<Rightarrow> n = 0)"

text \<open>
  The loop of lines 191 to 216. \<^verbatim>\<open>except Exception\<close> catches every exception of the lookup
  but \<^verbatim>\<open>SystemExit\<close>; the transaction is then skipped.
\<close>

fun confirm_loop ::
  "config \<Rightarrow> world \<Rightarrow> remote_tx list \<Rightarrow> string list \<Rightarrow> (string \<times> int) list \<Rightarrow> st \<Rightarrow>
   (exn + string list \<times> (string \<times> int) list) \<times> st"
where
  "confirm_loop cfg w [] tids fees s = (Inr (tids, fees), s)"
| "confirm_loop cfg w (obj # rest) tids fees s =
     (let s1 = emit (WalletGetTransaction (rtxid obj)) s in
      case gettransaction w (rtxid obj) of
        Fails e \<Rightarrow>
          if e = SystemExit then (Inl e, s1) else confirm_loop cfg w rest tids fees s1
      | Ok trans_data \<Rightarrow>
          let tids1 = (if confirmations trans_data > trans_confirmations cfg
                       then tids @ [rtxid obj] else tids)
          in if wfee trans_data \<noteq> None \<and> fee_falsy obj \<and> rfee obj \<noteq> None then
               (case wfee trans_data of
                  Some (DecimalFee d) \<Rightarrow>
                    confirm_loop cfg w rest tids1 (AList.update (rtxid obj) (satoshi d) fees) s1
                | _ \<Rightarrow> (Inl AssertionError, s1))
             else confirm_loop cfg w rest tids1 fees s1)"

definition confirm_trans :: "config \<Rightarrow> world \<Rightarrow> bool \<Rightarrow> st \<Rightarrow> outcome \<times> st" where
  "confirm_trans cfg w simulate s =
     (case poke_rpc w s of
        (Some e, s1) \<Rightarrow> (Raise e, s1)
      | (None, s1) \<Rightarrow>
          let s2 = emit (RemoteGetUnconfirmed (currency_code cfg)) s1 in
          case get_unconfirmed w of
            Fails e \<Rightarrow> (Raise e, s2)
          | Ok (success, objects) \<Rightarrow>
              if \<not> success then (Return PyNone, s2)
              else
                (case confirm_loop cfg w objects [] [] s2 of
                   (Inl e, s3) \<Rightarrow> (Raise e, s3)
                 | (Inr (tids, fees), s3) \<Rightarrow>
                     if tids \<noteq> [] \<or> fees \<noteq> [] then
                       (let s4 = emit (RemoteConfirm tids fees) s3 in
                        case confirm_transactions w of
                          Fails e \<Rightarrow> (Raise e, s4)
                        | Ok result \<Rightarrow> (Return (if result then PyTrue else PyFalse), s4))
                     else (Return PyNone, s3)))"

section \<open>\<^verbatim>\<open>associate_all\<close> and \<^verbatim>\<open>associate\<close>\<close>

text \<open>\<^verbatim>\<open>query(Payout).filter_by(associated=False).filter(Payout.txid != None)\<close>.\<close>

definition paid_unassociated :: "Payout list \<Rightarrow> nat list" where
  "paid_unassociated rows =
     filter (\<lambda>i. \<not> associated (rows ! i) \<and> txid (rows ! i) \<noteq> None) [0..<length rows]"

text \<open>
  The dictionary \<^verbatim>\<open>txids\<close>, keyed by the column \<^verbatim>\<open>txid\<close> as it is read. Its groups are
  visited in the order their keys were first stored.
\<close>

fun group_loop ::
  "Payout list \<Rightarrow> nat list \<Rightarrow> (string option \<times> nat list) list \<Rightarrow> (string option \<times> nat list) list"
where
  "group_loop rows [] txids = txids"
| "group_loop rows (i # rest) txids =
     group_loop rows rest
       (AList.map_entry (txid (rows ! i)) (\<lambda>l. l @ [i]) (setdefault (txid (rows ! i)) [] txids))"

text \<open>The loop of lines 431 to 434; the commit is in its body.\<close>

fun mark_loop :: "world \<Rightarrow> nat list \<Rightarrow> st \<Rightarrow> st" where
  "mark_loop w [] s = s"
| "mark_loop w (i # rest) s =
     mark_loop w rest
       (commit (s\<lparr>session := (session s)[i := (session s ! i)
                  \<lparr>associated := True, assoc_time := Some (utcnow w (ticks s))\<rparr>],
                ticks := Suc (ticks s)\<rparr>))"

definition associate ::
  "config \<Rightarrow> world \<Rightarrow> string option \<Rightarrow> nat list \<Rightarrow> st \<Rightarrow> outcome \<times> st"
where
  "associate cfg w tx payouts s =
     (let pids = map (\<lambda>i. pid (session s ! i)) payouts;
          s1 = emit (RemoteUpdate tx pids (currency_code cfg)) s
      in case update_payouts w tx pids of
           Fails e \<Rightarrow> (Raise e, s1)
         | Ok result \<Rightarrow>
             if result then (Return PyTrue, mark_loop w payouts s1)
             else (Return PyFalse, s1))"

fun associate_groups ::
  "config \<Rightarrow> world \<Rightarrow> bool \<Rightarrow> (string option \<times> nat list) list \<Rightarrow> st \<Rightarrow> outcome \<times> st"
where
  "associate_groups cfg w simulate [] s = (Return PyNone, s)"
| "associate_groups cfg w simulate ((tx, payouts) # rest) s =
     (if simulate then associate_groups cfg w simulate rest s
      else
        (case associate cfg w tx payouts s of
           (Raise e, s1) \<Rightarrow> (Raise e, s1)
         | (Return _, s1) \<Rightarrow> associate_groups cfg w simulate rest s1))"

definition associate_all :: "config \<Rightarrow> world \<Rightarrow> bool \<Rightarrow> st \<Rightarrow> outcome \<times> st" where
  "associate_all cfg w simulate s =
     associate_groups cfg w simulate
       (group_loop (session s) (paid_unassociated (session s)) []) s"

section \<open>\<^verbatim>\<open>call\<close> and \<^verbatim>\<open>entry\<close>\<close>

datatype command =
    Confirm_trans | Do_payout | Pull_payouts | Reset_all_locked | Dump_incomplete | Associate_all

text \<open>\<^verbatim>\<open>dump_incomplete\<close> prints three tables and writes nothing.\<close>

definition dump_incomplete :: "st \<Rightarrow> outcome \<times> st" where
  "dump_incomplete s = (Return PyNone, s)"

fun dispatch :: "config \<Rightarrow> world \<Rightarrow> command \<Rightarrow> bool \<Rightarrow> st \<Rightarrow> outcome \<times> st" where
  "dispatch cfg w Confirm_trans simulate s = confirm_trans cfg w simulate s"
| "dispatch cfg w Do_payout simulate s = payout cfg w simulate s"
| "dispatch cfg w Pull_payouts simulate s = pull_payouts cfg w simulate s"
| "dispatch cfg w Reset_all_locked simulate s = reset_all_locked simulate s"
| "dispatch cfg w Dump_incomplete simulate s = dump_incomplete s"
| "dispatch cfg w Associate_all simulate s = associate_all cfg w simulate s"

text \<open>\<^verbatim>\<open>call\<close> turns every \<^verbatim>\<open>Exception\<close> into the return value \<^verbatim>\<open>False\<close>.\<close>

definition call :: "config \<Rightarrow> world \<Rightarrow> command \<Rightarrow> bool \<Rightarrow> st \<Rightarrow> outcome \<times> st" where
  "call cfg w c simulate s =
     (case dispatch cfg w c simulate s of
        (Raise e, s1) \<Rightarrow> if e = SystemExit then (Raise e, s1) else (Return PyFalse, s1)
      | (Return v, s1) \<Rightarrow> (Return v, s1))"

text \<open>
  One run of the program: a new process with a new session runs one command; what it
  leaves behind is what it committed.
\<close>

definition entry :: "config \<Rightarrow> world \<Rightarrow> command \<Rightarrow> bool \<Rightarrow> Payout list \<Rightarrow> Payout list" where
  "entry cfg w c simulate rows = durable (snd (call cfg w c simulate (fresh rows)))"

text \<open>
  Runs of the program one after the other, each a process of its own with the
  configuration file and the world it finds.
\<close>

fun runs :: "(config \<times> world \<times> command \<times> bool) list \<Rightarrow> Payout list \<Rightarrow> Payout list" where
  "runs [] rows = rows"
| "runs ((cfg, w, c, simulate) # rest) rows = runs rest (entry cfg w c simulate rows)"

section \<open>Notions used in the statements\<close>

text \<open>
  The row at position \<open>i\<close> is \<open>p\<close>, in the session and in the database.
\<close>

definition keeps :: "nat \<Rightarrow> Payout \<Rightarrow> st \<Rightarrow> bool" where
  "keeps i p s \<longleftrightarrow>
     i < length (session s) \<and> i < length (durable s) \<and> session s ! i = p \<and> durable s ! i = p"

text \<open>
  The row at position \<open>i\<close> carries the transaction id \<open>t\<close>, in the session and in the
  database.
\<close>

definition paid_as :: "nat \<Rightarrow> string \<Rightarrow> st \<Rightarrow> bool" where
  "paid_as i t s \<longleftrightarrow>
     i < length (session s) \<and> i < length (durable s) \<and>
     txid (session s ! i) = Some t \<and> txid (durable s ! i) = Some t"

text \<open>The invariant of a row: an associated payout has a transaction id.\<close>

definition sound_row :: "Payout \<Rightarrow> bool" where
  "sound_row p \<longleftrightarrow> (associated p \<longrightarrow> txid p \<noteq> None)"

definition sound :: "st \<Rightarrow> bool" where
  "sound s \<longleftrightarrow> (\<forall>p\<in>set (session s). sound_row p) \<and> (\<forall>p\<in>set (durable s). sound_row p)"

text \<open>The pids that the remote sends with an address that passes the version check.\<close>

definition valid_pids :: "config \<Rightarrow> world \<Rightarrow> (string \<times> int \<times> string) list \<Rightarrow> string set" where
  "valid_pids cfg w payouts = {p. \<exists>u a. (u, a, p) \<in> set payouts \<and> address_valid cfg w u}"



section \<open>Concrete inputs\<close>

text \<open>
  A configuration that accepts address version 0, and a world in which the address
  \<^verbatim>\<open>1ABC\<close> has that version, the wallet holds 20 coins and every call succeeds.
\<close>

definition cfg0 :: config where
  "cfg0 = \<lparr>valid_address_versions = [0], currency_code = ''BTC'', trans_confirmations = 6,
           payout_fee = 1 / 10000, wallet_pass = ''secret'', account = ''pool''\<rparr>"

definition w0 :: world where
  "w0 = \<lparr>utcnow = (\<lambda>n. 100 + n),
         raw_input = ''n'',
         get_bcaddress_version = (\<lambda>u. if u = ''1ABC'' then Some 0 else None),
         getinfo = Ok (),
         getbalance = (\<lambda>k. Ok 20),
         walletpassphrase = Ok (),
         settxfee = Ok (),
         sendmany = Ok ''tx1'',
         gettransaction = (\<lambda>t. Ok \<lparr>confirmations = 10, wfee = Some (DecimalFee (- 1 / 10000))\<rparr>),
         get_payouts = Ok [(''1ABC'', 500000000, ''ext-1''), (''1ABC'', 250000000, ''ext-2'')],
         get_unconfirmed = Ok (True, []),
         confirm_transactions = Ok True,
         update_payouts = (\<lambda>tx pids. Ok True)\<rparr>"

text \<open>The two payouts of the spec's example as \<^verbatim>\<open>pull_payouts\<close> stores them.\<close>

definition row1 :: Payout where
  "row1 = \<lparr>pid = ''ext-1'', user = ''1ABC'', amount = 500000000, txid = None,
            associated = False, locked = False, lock_time = None, paid_time = None,
            assoc_time = None, pull_time = Some 3\<rparr>"

definition row2 :: Payout where
  "row2 = \<lparr>pid = ''ext-2'', user = ''1ABC'', amount = 250000000, txid = None,
            associated = False, locked = False, lock_time = None, paid_time = None,
            assoc_time = None, pull_time = Some 4\<rparr>"

text \<open>The same two payouts after a successful \<^verbatim>\<open>payout\<close> with transaction \<^verbatim>\<open>tx1\<close>.\<close>

definition paid1 :: Payout where
  "paid1 = row1\<lparr>lock_time := Some 100, txid := Some ''tx1'', paid_time := Some 102\<rparr>"

definition paid2 :: Payout where
  "paid2 = row2\<lparr>lock_time := Some 101, txid := Some ''tx1'', paid_time := Some 103\<rparr>"

text \<open>
  The send raises \<^verbatim>\<open>CoinRPCException\<close>: in \<open>w_lost\<close> the balance read again is one coin
  less, in \<open>w_refused\<close> it is the same.
\<close>

definition w_lost :: world where
  "w_lost = w0\<lparr>sendmany := Fails (WalletExn True True),
                getbalance := (\<lambda>k. if k = 0 then Ok 20 else Ok 19)\<rparr>"

definition w_refused :: world where
  "w_refused = w0\<lparr>sendmany := Fails (WalletExn True True)\<rparr>"

text \<open>The remote sends the pid \<^verbatim>\<open>ext-2\<close> with an address of no accepted version.\<close>

definition w_bad_address :: world where
  "w_bad_address = w0\<lparr>get_payouts := Ok [(''bad'', 5, ''ext-2'')]\<rparr>"




section \<open>Properties of the loops\<close>

subsection \<open>Dictionaries\<close>

lemma sum_setdefault_entry:
  "sum_list (map snd (AList.map_entry k (\<lambda>v. v + a) (setdefault k 0 d))) =
     sum_list (map snd d) + (a::int)"
  by (induction d) auto

lemma map_of_setdefault_entry:
  "map_of (AList.map_entry k (\<lambda>v. v + a) (setdefault k 0 d)) =
     (map_of d)(k \<mapsto> (case map_of d k of None \<Rightarrow> 0 | Some v \<Rightarrow> v) + (a::int))"
  by (induction d) (auto simp: fun_eq_iff)

subsection \<open>The loops over selected rows\<close>

lemma nth_update_field:
  assumes "\<And>p. f (g p) = f p"
  shows "f (xs[i := g (xs ! i)] ! j) = f (xs ! j)"
proof (cases "i < length xs")
  case True
  then show ?thesis by (cases "i = j") (simp_all add: assms)
next
  case False
  then show ?thesis by (simp add: not_less list_update_beyond)
qed

lemma lock_loop_durable [simp]:
  "durable (snd (snd (lock_loop w is upa pids s))) = durable s"
  by (induction "is" arbitrary: upa pids s) (simp_all add: Let_def)

lemma lock_loop_trace [simp]:
  "trace (snd (snd (lock_loop w is upa pids s))) = trace s"
  by (induction "is" arbitrary: upa pids s) (simp_all add: Let_def)

lemma lock_loop_ticks [simp]:
  "ticks (snd (snd (lock_loop w is upa pids s))) = ticks s + length is"
  by (induction "is" arbitrary: upa pids s) (simp_all add: Let_def)

lemma lock_loop_length [simp]:
  "length (session (snd (snd (lock_loop w is upa pids s)))) = length (session s)"
  by (induction "is" arbitrary: upa pids s) (simp_all add: Let_def)

lemma lock_loop_other:
  "j \<notin> set is \<Longrightarrow> session (snd (snd (lock_loop w is upa pids s))) ! j = session s ! j"
  by (induction "is" arbitrary: upa pids s) (auto simp: Let_def)

lemma lock_loop_stays_locked:
  "locked (session s ! j) \<Longrightarrow> locked (session (snd (snd (lock_loop w is upa pids s))) ! j)"
proof (induction "is" arbitrary: upa pids s)
  case Nil
  then show ?case by simp
next
  case (Cons i rest)
  have "locked ((session s)[i := (session s ! i)\<lparr>locked := True, lock_time := Some (utcnow w (ticks s))\<rparr>] ! j)"
    using Cons.prems by (cases "i < length (session s)"; cases "i = j"; simp add: not_less list_update_beyond)
  then show ?case by (simp add: Let_def Cons.IH)
qed

lemma lock_loop_locks:
  "i \<in> set is \<Longrightarrow> i < length (session s) \<Longrightarrow>
   locked (session (snd (snd (lock_loop w is upa pids s))) ! i)"
proof (induction "is" arbitrary: upa pids s)
  case Nil
  then show ?case by simp
next
  case (Cons i0 rest)
  show ?case
  proof (cases "i = i0")
    case True
    then show ?thesis using Cons.prems by (simp add: Let_def lock_loop_stays_locked)
  next
    case False
    then show ?thesis using Cons.prems by (simp add: Let_def Cons.IH)
  qed
qed

lemma lock_loop_total:
  "sum_list (map snd (fst (lock_loop w is upa pids s))) =
     sum_list (map snd upa) + (\<Sum>i\<leftarrow>is. amount (session s ! i))"
proof (induction "is" arbitrary: upa pids s)
  case Nil
  then show ?case by simp
next
  case (Cons i rest)
  have same: "amount ((session s)[i := (session s ! i)\<lparr>locked := True, lock_time := t\<rparr>] ! j) =
      amount (session s ! j)" for j t
    by (rule nth_update_field) simp
  show ?case by (simp add: Let_def Cons.IH sum_setdefault_entry same)
qed

section \<open>Disbursement with too small a balance\<close>

lemma unpaid_unlocked_iff:
  "i \<in> set (unpaid_unlocked rows) \<longleftrightarrow> i < length rows \<and> txid (rows ! i) = None \<and> \<not> locked (rows ! i)"
  by (auto simp: unpaid_unlocked_def)

lemma payout_out_of_funds_state:
  assumes "getinfo w = Ok ()"
    and "unpaid_unlocked rows \<noteq> []"
    and "getbalance w 0 = Ok b"
    and "satoshi b < (\<Sum>i\<leftarrow>unpaid_unlocked rows. amount (rows ! i))"
  shows "fst (payout cfg w simulate (fresh rows)) = Return PyFalse"
    and "session (snd (payout cfg w simulate (fresh rows))) = rows"
    and "durable (snd (payout cfg w simulate (fresh rows))) = rows"
    and "trace (snd (payout cfg w simulate (fresh rows))) = [WalletGetInfo, WalletGetBalance, DbRollback]"
  using assms
  by (simp_all add: payout_def poke_rpc_def emit_def fresh_def rollback_def Let_def
        split_beta lock_loop_total)

text \<open>
  Claim C2. When the balance read by \<^verbatim>\<open>payout\<close> is strictly less than the sum of the
  amounts of the selected payouts, the method returns \<^verbatim>\<open>False\<close>; the wallet is asked for
  its state and its balance and for nothing else, so no send is made; and the rollback
  leaves every selected row unlocked and without a transaction id, in the session and in
  the database.
\<close>

theorem payout_out_of_funds:
  assumes "getinfo w = Ok ()"
    and "unpaid_unlocked rows \<noteq> []"
    and "getbalance w 0 = Ok b"
    and "satoshi b < (\<Sum>i\<leftarrow>unpaid_unlocked rows. amount (rows ! i))"
    and "payout cfg w simulate (fresh rows) = (r, s)"
  shows "r = Return PyFalse \<and>
         trace s = [WalletGetInfo, WalletGetBalance, DbRollback] \<and>
         session s = rows \<and> durable s = rows \<and>
         (\<forall>i\<in>set (unpaid_unlocked rows).
            \<not> locked (durable s ! i) \<and> txid (durable s ! i) = None)"
  using payout_out_of_funds_state [OF assms(1-4), of cfg simulate] assms(5)
  by (simp add: unpaid_unlocked_iff)


theorem payout_out_of_funds_witness:
  "getinfo (w0\<lparr>getbalance := \<lambda>k. Ok 5\<rparr>) = Ok () \<and>
   unpaid_unlocked [row1, row2] = [0, 1] \<and>
   satoshi 5 < amount row1 + amount row2 \<and>
   fst (payout cfg0 (w0\<lparr>getbalance := \<lambda>k. Ok 5\<rparr>) False (fresh [row1, row2])) = Return PyFalse \<and>
   durable (snd (payout cfg0 (w0\<lparr>getbalance := \<lambda>k. Ok 5\<rparr>) False (fresh [row1, row2]))) = [row1, row2] \<and>
   \<not> locked (durable (snd (payout cfg0 (w0\<lparr>getbalance := \<lambda>k. Ok 5\<rparr>) False (fresh [row1, row2]))) ! 0)"
proof -
  let ?w = "w0\<lparr>getbalance := \<lambda>k. Ok 5\<rparr>"
  have sel: "unpaid_unlocked [row1, row2] = [0, 1]"
    by (simp add: unpaid_unlocked_def row1_def row2_def upt_rec)
  have h1: "getinfo ?w = Ok ()" by (simp add: w0_def)
  have h2: "unpaid_unlocked [row1, row2] \<noteq> []" by (simp add: sel)
  have h3: "getbalance ?w 0 = Ok 5" by simp
  have h4: "satoshi 5 < (\<Sum>i\<leftarrow>unpaid_unlocked [row1, row2]. amount ([row1, row2] ! i))"
    unfolding sel by (simp add: satoshi_def py_int_def row1_def row2_def)
  obtain r s where run: "payout cfg0 ?w False (fresh [row1, row2]) = (r, s)"
    by (cases "payout cfg0 ?w False (fresh [row1, row2])")
  from payout_out_of_funds [OF h1 h2 h3 h4 run] h1 h4 sel run
  show ?thesis by (auto simp: row1_def)
qed

section \<open>\<^verbatim>\<open>reset_all_locked\<close> writes the lock flag only\<close>

lemma entry_reset:
  "entry cfg w Reset_all_locked False rows =
     map (\<lambda>p. if locked p then p\<lparr>locked := False\<rparr> else p) rows"
  by (simp add: entry_def call_def reset_all_locked_def fresh_def commit_def)

lemma entry_reset_simulated: "entry cfg w Reset_all_locked True rows = rows"
  by (simp add: entry_def call_def reset_all_locked_def fresh_def)

text \<open>
  The claim C10 as the spec states it fails on the code in one mode: run with
  \<^verbatim>\<open>simulate\<close>, \<^verbatim>\<open>reset_all_locked\<close> leaves through \<^verbatim>\<open>exit(0)\<close> before the update, and a
  locked row stays locked.
\<close>

theorem reset_all_locked_simulated_keeps_locks:
  "locked (row1\<lparr>locked := True\<rparr>) \<and>
   fst (reset_all_locked True (fresh [row1\<lparr>locked := True\<rparr>, row2])) = Raise SystemExit \<and>
   entry cfg0 w0 Reset_all_locked True [row1\<lparr>locked := True\<rparr>, row2] =
     [row1\<lparr>locked := True\<rparr>, row2]"
  by (simp add: entry_reset_simulated reset_all_locked_def)

text \<open>
  Claim C10, amended to name both modes. A run of \<^verbatim>\<open>reset_all_locked\<close> keeps the number
  of rows and changes no column but \<^verbatim>\<open>locked\<close>. A real run leaves every row unlocked, and
  a row that was not locked as it was. A simulated run leaves every row as it was.
\<close>

theorem reset_all_locked_only_unlocks:
  "length (entry cfg w Reset_all_locked simulate rows) = length rows \<and>
   (\<forall>i<length rows.
      (locked (entry cfg w Reset_all_locked simulate rows ! i) \<longleftrightarrow>
         simulate \<and> locked (rows ! i)) \<and>
      pid (entry cfg w Reset_all_locked simulate rows ! i) = pid (rows ! i) \<and>
      user (entry cfg w Reset_all_locked simulate rows ! i) = user (rows ! i) \<and>
      amount (entry cfg w Reset_all_locked simulate rows ! i) = amount (rows ! i) \<and>
      txid (entry cfg w Reset_all_locked simulate rows ! i) = txid (rows ! i) \<and>
      associated (entry cfg w Reset_all_locked simulate rows ! i) = associated (rows ! i) \<and>
      lock_time (entry cfg w Reset_all_locked simulate rows ! i) = lock_time (rows ! i) \<and>
      paid_time (entry cfg w Reset_all_locked simulate rows ! i) = paid_time (rows ! i) \<and>
      assoc_time (entry cfg w Reset_all_locked simulate rows ! i) = assoc_time (rows ! i) \<and>
      pull_time (entry cfg w Reset_all_locked simulate rows ! i) = pull_time (rows ! i) \<and>
      (simulate \<or> \<not> locked (rows ! i) \<longrightarrow>
         entry cfg w Reset_all_locked simulate rows ! i = rows ! i))"
proof (cases simulate)
  case True
  then show ?thesis by (simp add: entry_reset_simulated)
next
  case False
  then show ?thesis by (simp add: entry_reset)
qed

theorem reset_all_locked_only_unlocks_witness:
  "locked (row1\<lparr>locked := True\<rparr>) \<and> \<not> locked row2 \<and>
   entry cfg0 w0 Reset_all_locked False [row1\<lparr>locked := True\<rparr>, row2] = [row1, row2] \<and>
   entry cfg0 w0 Reset_all_locked True [row1\<lparr>locked := True\<rparr>, row2] =
     [row1\<lparr>locked := True\<rparr>, row2]"
proof -
  let ?rows = "[row1\<lparr>locked := True\<rparr>, row2]"
  let ?real = "entry cfg0 w0 Reset_all_locked False ?rows"
  let ?dry = "entry cfg0 w0 Reset_all_locked True ?rows"
  have unlocked: "\<not> locked row1" "\<not> locked row2"
    by (simp_all add: row1_def row2_def)
  from reset_all_locked_only_unlocks [of cfg0 w0 False ?rows]
  have len: "length ?real = 2"
    and all: "\<forall>i<2. \<not> locked (?real ! i) \<and> pid (?real ! i) = pid (?rows ! i) \<and>
       user (?real ! i) = user (?rows ! i) \<and> amount (?real ! i) = amount (?rows ! i) \<and>
       txid (?real ! i) = txid (?rows ! i) \<and> associated (?real ! i) = associated (?rows ! i) \<and>
       lock_time (?real ! i) = lock_time (?rows ! i) \<and> paid_time (?real ! i) = paid_time (?rows ! i) \<and>
       assoc_time (?real ! i) = assoc_time (?rows ! i) \<and> pull_time (?real ! i) = pull_time (?rows ! i) \<and>
       (\<not> locked (?rows ! i) \<longrightarrow> ?real ! i = ?rows ! i)"
    by simp_all
  from all have "?real ! 0 = row1"
    by (intro Payout.equality) (simp_all add: unlocked)
  moreover from all unlocked have "?real ! 1 = row2" by simp
  ultimately have real: "?real = [row1, row2]"
    using len by (intro nth_equalityI) (auto simp: less_Suc_eq numeral_2_eq_2)
  from reset_all_locked_only_unlocks [of cfg0 w0 True ?rows]
  have dlen: "length ?dry = 2" and dall: "\<forall>i<2. ?dry ! i = ?rows ! i"
    by simp_all
  then have dry: "?dry = ?rows"
    by (intro nth_equalityI) (auto simp: less_Suc_eq numeral_2_eq_2)
  from real dry unlocked show ?thesis by simp
qed

section \<open>A successful send\<close>

lemma distinct_unpaid_unlocked [simp]: "distinct (unpaid_unlocked rows)"
  by (simp add: unpaid_unlocked_def)

lemma unpaid_unlocked_less: "i \<in> set (unpaid_unlocked rows) \<Longrightarrow> i < length rows"
  by (simp add: unpaid_unlocked_iff)

lemma payout_many_session [simp]: "session (snd (payout_many cfg w recip s)) = session s"
  by (simp add: payout_many_def emit_def Let_def split: reply.splits)

lemma payout_many_durable [simp]: "durable (snd (payout_many cfg w recip s)) = durable s"
  by (simp add: payout_many_def emit_def Let_def split: reply.splits)

lemma payout_many_ticks [simp]: "ticks (snd (payout_many cfg w recip s)) = ticks s"
  by (simp add: payout_many_def emit_def Let_def split: reply.splits)

lemma payout_many_reply:
  "wallet_pass cfg = [] \<or> walletpassphrase w = Ok () \<Longrightarrow> settxfee w = Ok () \<Longrightarrow>
   fst (payout_many cfg w recip s) = sendmany w"
  by (auto simp: payout_many_def emit_def Let_def)

lemma paid_loop_durable [simp]: "durable (paid_loop w t is s) = durable s"
  by (induction "is" arbitrary: s) simp_all

lemma paid_loop_trace [simp]: "trace (paid_loop w t is s) = trace s"
  by (induction "is" arbitrary: s) simp_all

lemma paid_loop_length [simp]: "length (session (paid_loop w t is s)) = length (session s)"
  by (induction "is" arbitrary: s) simp_all

lemma paid_loop_other: "j \<notin> set is \<Longrightarrow> session (paid_loop w t is s) ! j = session s ! j"
  by (induction "is" arbitrary: s) auto

lemma paid_loop_nth:
  "distinct is \<Longrightarrow> k < length is \<Longrightarrow> is ! k < length (session s) \<Longrightarrow>
   session (paid_loop w t is s) ! (is ! k) =
     (session s ! (is ! k))\<lparr>locked := False, txid := Some t,
                              paid_time := Some (utcnow w (ticks s + k))\<rparr>"
proof (induction "is" arbitrary: s k)
  case Nil
  then show ?case by simp
next
  case (Cons i rest)
  show ?case
  proof (cases k)
    case 0
    with Cons.prems show ?thesis by (simp add: paid_loop_other)
  next
    case (Suc k')
    with Cons.prems have "rest ! k' \<noteq> i" by auto
    with Suc Cons.prems show ?thesis by (simp add: Cons.IH)
  qed
qed

lemma payout_sent:
  assumes "getinfo w = Ok ()"
    and "unpaid_unlocked rows \<noteq> []"
    and "getbalance w 0 = Ok b"
    and "\<not> satoshi b < (\<Sum>i\<leftarrow>unpaid_unlocked rows. amount (rows ! i))"
    and "wallet_pass cfg = [] \<or> walletpassphrase w = Ok ()"
    and "settxfee w = Ok ()"
    and "sendmany w = Ok t"
  shows "\<exists>s1. length (session s1) = length rows \<and> ticks s1 = length (unpaid_unlocked rows) \<and>
           payout cfg w False (fresh rows) = record_paid w t (unpaid_unlocked rows) s1"
proof -
  let ?s1 = "emit WalletGetInfo (fresh rows)"
  let ?l = "lock_loop w (unpaid_unlocked rows) [] [] ?s1"
  let ?s4 = "commit (emit WalletGetBalance (snd (snd ?l)))"
  let ?m = "payout_many cfg w (recipients (fst ?l)) ?s4"
  have reply: "fst ?m = Ok t"
    using payout_many_reply [OF assms(5,6)] assms(7) by simp
  have "payout cfg w False (fresh rows) = record_paid w t (unpaid_unlocked rows) (snd ?m)"
    using assms(1-4) reply
    by (simp add: payout_def poke_rpc_def Let_def split_beta lock_loop_total emit_def fresh_def
          split: prod.splits reply.splits)
  moreover have "length (session (snd ?m)) = length rows"
    by (simp add: commit_def emit_def fresh_def)
  moreover have "ticks (snd ?m) = length (unpaid_unlocked rows)"
    by (simp add: commit_def emit_def fresh_def)
  ultimately show ?thesis by blast
qed

text \<open>
  Claim C4. When the send succeeds with transaction id \<open>t\<close>, \<^verbatim>\<open>payout\<close> returns \<open>t\<close>, and
  its last act is the commit of rows in which the \<open>k\<close>-th selected payout carries
  \<open>t\<close>, is unlocked, and has as \<^verbatim>\<open>paid_time\<close> the clock reading made for it (the readings
  before were made for the locks).
\<close>

theorem payout_success_recorded:
  assumes "getinfo w = Ok ()"
    and "unpaid_unlocked rows \<noteq> []"
    and "getbalance w 0 = Ok b"
    and "\<not> satoshi b < (\<Sum>i\<leftarrow>unpaid_unlocked rows. amount (rows ! i))"
    and "wallet_pass cfg = [] \<or> walletpassphrase w = Ok ()"
    and "settxfee w = Ok ()"
    and "sendmany w = Ok t"
    and "payout cfg w False (fresh rows) = (r, s)"
  shows "r = Return (PyStr t) \<and>
         last (trace s) = DbCommit (session s) \<and> durable s = session s \<and>
         (\<forall>k<length (unpaid_unlocked rows).
            txid (durable s ! (unpaid_unlocked rows ! k)) = Some t \<and>
            \<not> locked (durable s ! (unpaid_unlocked rows ! k)) \<and>
            paid_time (durable s ! (unpaid_unlocked rows ! k)) =
              Some (utcnow w (length (unpaid_unlocked rows) + k)))"
proof -
  from payout_sent [OF assms(1-7)] obtain s1 where
    len: "length (session s1) = length rows" and
    tick: "ticks s1 = length (unpaid_unlocked rows)" and
    run: "payout cfg w False (fresh rows) = record_paid w t (unpaid_unlocked rows) s1"
    by blast
  from run assms(8) have r: "r = Return (PyStr t)"
    and s: "s = commit (paid_loop w t (unpaid_unlocked rows) s1)"
    by (simp_all add: record_paid_def)
  have "txid (durable s ! (unpaid_unlocked rows ! k)) = Some t \<and>
        \<not> locked (durable s ! (unpaid_unlocked rows ! k)) \<and>
        paid_time (durable s ! (unpaid_unlocked rows ! k)) =
          Some (utcnow w (length (unpaid_unlocked rows) + k))"
    if "k < length (unpaid_unlocked rows)" for k
  proof -
    from that have "unpaid_unlocked rows ! k < length (session s1)"
      using unpaid_unlocked_less [of "unpaid_unlocked rows ! k" rows] len by simp
    from paid_loop_nth [OF distinct_unpaid_unlocked that this, of w t]
    show ?thesis by (simp add: s commit_def tick)
  qed
  then show ?thesis by (simp add: r s commit_def)
qed

theorem payout_success_recorded_witness:
  "unpaid_unlocked [row1, row2] = [0, 1] \<and>
   sendmany w0 = Ok ''tx1'' \<and>
   fst (payout cfg0 w0 False (fresh [row1, row2])) = Return (PyStr ''tx1'') \<and>
   txid (durable (snd (payout cfg0 w0 False (fresh [row1, row2]))) ! 0) = Some ''tx1'' \<and>
   txid (durable (snd (payout cfg0 w0 False (fresh [row1, row2]))) ! 1) = Some ''tx1'' \<and>
   \<not> locked (durable (snd (payout cfg0 w0 False (fresh [row1, row2]))) ! 0) \<and>
   \<not> locked (durable (snd (payout cfg0 w0 False (fresh [row1, row2]))) ! 1) \<and>
   paid_time (durable (snd (payout cfg0 w0 False (fresh [row1, row2]))) ! 0) = Some 102 \<and>
   paid_time (durable (snd (payout cfg0 w0 False (fresh [row1, row2]))) ! 1) = Some 103"
proof -
  have sel: "unpaid_unlocked [row1, row2] = [0, 1]"
    by (simp add: unpaid_unlocked_def row1_def row2_def upt_rec)
  have h1: "getinfo w0 = Ok ()" by (simp add: w0_def)
  have h2: "unpaid_unlocked [row1, row2] \<noteq> []" by (simp add: sel)
  have h3: "getbalance w0 0 = Ok 20" by (simp add: w0_def)
  have h4: "\<not> satoshi 20 < (\<Sum>i\<leftarrow>unpaid_unlocked [row1, row2]. amount ([row1, row2] ! i))"
    unfolding sel by (simp add: satoshi_def py_int_def row1_def row2_def)
  have h5: "wallet_pass cfg0 = [] \<or> walletpassphrase w0 = Ok ()" by (simp add: w0_def)
  have h6: "settxfee w0 = Ok ()" by (simp add: w0_def)
  have h7: "sendmany w0 = Ok ''tx1''" by (simp add: w0_def)
  have clock: "utcnow w0 n = 100 + n" for n by (simp add: w0_def)
  obtain r s where run: "payout cfg0 w0 False (fresh [row1, row2]) = (r, s)"
    by (cases "payout cfg0 w0 False (fresh [row1, row2])")
  note recorded = payout_success_recorded [OF h1 h2 h3 h4 h5 h6 h7 run, unfolded sel]
  from recorded have r: "r = Return (PyStr ''tx1'')" by simp
  from recorded have
    each: "k < 2 \<Longrightarrow> txid (durable s ! ([0, 1] ! k)) = Some ''tx1'' \<and>
             \<not> locked (durable s ! ([0, 1] ! k)) \<and>
             paid_time (durable s ! ([0, 1] ! k)) = Some (utcnow w0 (2 + k))" for k
    by auto
  from each [of 0] each [of 1] r h7 sel run
  show ?thesis by (simp add: clock)
qed

section \<open>Rows that a command does not select\<close>

lemma keeps_fresh: "i < length rows \<Longrightarrow> keeps i (rows ! i) (fresh rows)"
  by (simp add: keeps_def fresh_def)

lemma keeps_emit [simp]: "keeps i p (emit e s) = keeps i p s"
  by (simp add: keeps_def emit_def)

lemma keeps_commit: "keeps i p s \<Longrightarrow> keeps i p (commit s)"
  by (simp add: keeps_def commit_def)

lemma keeps_rollback: "keeps i p s \<Longrightarrow> keeps i p (rollback s)"
  by (simp add: keeps_def rollback_def)

lemma keeps_poke: "keeps i p s \<Longrightarrow> keeps i p (snd (poke_rpc w s))"
  by (simp add: poke_rpc_def split: reply.splits)

lemma keeps_payout_many: "keeps i p s \<Longrightarrow> keeps i p (snd (payout_many cfg w recip s))"
  by (simp add: keeps_def)

lemma keeps_lock_loop:
  "i \<notin> set is \<Longrightarrow> keeps i p s \<Longrightarrow> keeps i p (snd (snd (lock_loop w is upa pids s)))"
  by (simp add: keeps_def lock_loop_other)

lemma unlock_loop_durable [simp]: "durable (unlock_loop is s) = durable s"
  by (induction "is" arbitrary: s) simp_all

lemma unlock_loop_length [simp]: "length (session (unlock_loop is s)) = length (session s)"
  by (induction "is" arbitrary: s) simp_all

lemma unlock_loop_other: "j \<notin> set is \<Longrightarrow> session (unlock_loop is s) ! j = session s ! j"
  by (induction "is" arbitrary: s) auto

lemma keeps_unlock_loop: "i \<notin> set is \<Longrightarrow> keeps i p s \<Longrightarrow> keeps i p (unlock_loop is s)"
  by (simp add: keeps_def unlock_loop_other)

lemma keeps_paid_loop: "i \<notin> set is \<Longrightarrow> keeps i p s \<Longrightarrow> keeps i p (paid_loop w t is s)"
  by (simp add: keeps_def paid_loop_other)

lemma keeps_record_paid:
  "i \<notin> set is \<Longrightarrow> keeps i p s \<Longrightarrow> keeps i p (snd (record_paid w t is s))"
  by (simp add: record_paid_def keeps_commit keeps_paid_loop)

lemma keeps_send_failed:
  "i \<notin> set is \<Longrightarrow> keeps i p s \<Longrightarrow> keeps i p (snd (send_failed w b is s))"
  by (simp add: send_failed_def Let_def keeps_unlock_loop split: reply.splits)

lemma keeps_payout:
  assumes "keeps i p s" and "locked p \<or> txid p \<noteq> None"
  shows "keeps i p (snd (payout cfg w simulate s))"
proof -
  let ?s1 = "snd (poke_rpc w s)"
  let ?sel = "unpaid_unlocked (session ?s1)"
  have s1: "keeps i p ?s1" using assms(1) by (rule keeps_poke)
  have "session ?s1 ! i = p" using s1 by (simp add: keeps_def)
  with assms(2) have out: "i \<notin> set ?sel" by (auto simp: unpaid_unlocked_iff)
  let ?l = "lock_loop w ?sel [] [] ?s1"
  have s3: "keeps i p (emit WalletGetBalance (snd (snd ?l)))"
    using out s1 by (simp add: keeps_lock_loop)
  show ?thesis
    using s1 s3 out
    by (simp add: payout_def Let_def split_beta keeps_rollback keeps_commit keeps_record_paid
          keeps_send_failed keeps_payout_many
          split: prod.splits option.splits reply.splits)
qed

lemma keeps_confirm_loop:
  "keeps i p s \<Longrightarrow> keeps i p (snd (confirm_loop cfg w objs tids fees s))"
  by (induction objs arbitrary: tids fees s)
     (auto simp: Let_def split: reply.splits option.splits wallet_fee.splits)

lemma keeps_confirm_trans:
  "keeps i p s \<Longrightarrow> keeps i p (snd (confirm_trans cfg w simulate s))"
  by (simp add: confirm_trans_def Let_def split_beta keeps_poke keeps_confirm_loop
        split: option.splits reply.splits sum.splits)

lemma pull_loop_durable [simp]: "durable (snd (pull_loop cfg w payouts counts s)) = durable s"
  by (induction cfg w payouts counts s rule: pull_loop.induct)
     (simp_all split: option.splits)

lemma pull_loop_appends:
  "\<exists>added. session (snd (pull_loop cfg w payouts counts s)) = session s @ added"
proof (induction cfg w payouts counts s rule: pull_loop.induct)
  case (1 cfg w counts s)
  then show ?case by simp
next
  case (2 cfg w u a p rest new repeat invalid s)
  then show ?case by (auto split: option.splits)
qed

lemma keeps_pull_loop:
  assumes "keeps i p s"
  shows "keeps i p (snd (pull_loop cfg w payouts counts s))"
proof -
  obtain added where "session (snd (pull_loop cfg w payouts counts s)) = session s @ added"
    using pull_loop_appends by blast
  with assms show ?thesis by (simp add: keeps_def nth_append)
qed

lemma keeps_pull_payouts:
  "keeps i p s \<Longrightarrow> keeps i p (snd (pull_payouts cfg w simulate s))"
  by (simp add: pull_payouts_def Let_def split_beta keeps_commit keeps_pull_loop
        split: reply.splits)

lemma entry_members:
  "(\<Union>g\<in>set (AList.map_entry k (\<lambda>l. l @ [i]) (setdefault k [] txids)). set (snd g)) \<subseteq>
     insert i (\<Union>g\<in>set txids. set (snd g))"
  by (induction txids) auto

lemma group_loop_members:
  "(\<Union>g\<in>set (group_loop rows sel txids). set (snd g)) \<subseteq>
     set sel \<union> (\<Union>g\<in>set txids. set (snd g))"
proof (induction sel arbitrary: txids)
  case Nil
  then show ?case by simp
next
  case (Cons i rest)
  from Cons.IH [of "AList.map_entry (txid (rows ! i)) (\<lambda>l. l @ [i]) (setdefault (txid (rows ! i)) [] txids)"]
    entry_members [of "txid (rows ! i)" i txids]
  show ?case by auto
qed

lemma keeps_mark_loop: "i \<notin> set is \<Longrightarrow> keeps i p s \<Longrightarrow> keeps i p (mark_loop w is s)"
proof (induction "is" arbitrary: s)
  case Nil
  then show ?case by simp
next
  case (Cons j rest)
  from Cons.prems have "keeps i p (commit (s\<lparr>session := (session s)[j := (session s ! j)
      \<lparr>associated := True, assoc_time := Some (utcnow w (ticks s))\<rparr>], ticks := Suc (ticks s)\<rparr>))"
    by (simp add: keeps_def commit_def)
  with Cons show ?case by simp
qed

lemma keeps_associate:
  "i \<notin> set payouts \<Longrightarrow> keeps i p s \<Longrightarrow> keeps i p (snd (associate cfg w tx payouts s))"
  by (simp add: associate_def Let_def keeps_mark_loop split: reply.splits)

lemma keeps_associate_groups:
  "i \<notin> (\<Union>g\<in>set groups. set (snd g)) \<Longrightarrow> keeps i p s \<Longrightarrow>
   keeps i p (snd (associate_groups cfg w simulate groups s))"
proof (induction groups arbitrary: s)
  case Nil
  then show ?case by simp
next
  case (Cons g rest)
  obtain tx payouts where g: "g = (tx, payouts)" by (cases g)
  from Cons.prems g have "keeps i p (snd (associate cfg w tx payouts s))"
    by (simp add: keeps_associate)
  with Cons g show ?case
    by (cases "associate cfg w tx payouts s") (auto split: outcome.splits)
qed

lemma paid_unassociated_iff:
  "i \<in> set (paid_unassociated rows) \<longleftrightarrow>
     i < length rows \<and> \<not> associated (rows ! i) \<and> txid (rows ! i) \<noteq> None"
  by (auto simp: paid_unassociated_def)

lemma keeps_associate_all:
  assumes "keeps i p s" and "txid p = None \<or> associated p"
  shows "keeps i p (snd (associate_all cfg w simulate s))"
proof -
  from assms have "i \<notin> set (paid_unassociated (session s))"
    by (auto simp: paid_unassociated_iff keeps_def)
  with group_loop_members [of "session s" "paid_unassociated (session s)" "[]"]
  have "i \<notin> (\<Union>g\<in>set (group_loop (session s) (paid_unassociated (session s)) []). set (snd g))"
    by auto
  with assms(1) show ?thesis by (simp add: associate_all_def keeps_associate_groups)
qed

lemma keeps_dispatch:
  assumes "keeps i p s" and "locked p" and "txid p = None" and "c \<noteq> Reset_all_locked"
  shows "keeps i p (snd (dispatch cfg w c simulate s))"
  using assms
  by (cases c)
     (simp_all add: keeps_confirm_trans keeps_payout keeps_pull_payouts keeps_associate_all
        dump_incomplete_def)

lemma keeps_call:
  assumes "keeps i p s" and "locked p" and "txid p = None" and "c \<noteq> Reset_all_locked"
  shows "keeps i p (snd (call cfg w c simulate s))"
  using keeps_dispatch [OF assms, of cfg w simulate]
  by (simp add: call_def split_beta split: outcome.splits)

lemma entry_keeps_stuck:
  assumes "i < length rows" and "locked (rows ! i)" and "txid (rows ! i) = None"
    and "c \<noteq> Reset_all_locked"
  shows "i < length (entry cfg w c simulate rows) \<and> entry cfg w c simulate rows ! i = rows ! i"
  using keeps_call [OF keeps_fresh [OF assms(1)] assms(2-4), of cfg w simulate]
  by (simp add: entry_def keeps_def)

lemma runs_keep_stuck:
  assumes "\<forall>x\<in>set later. fst (snd (snd x)) \<noteq> Reset_all_locked"
    and "i < length rows" and "locked (rows ! i)" and "txid (rows ! i) = None"
  shows "i < length (runs later rows) \<and> runs later rows ! i = rows ! i"
  using assms
proof (induction later arbitrary: rows)
  case Nil
  then show ?case by simp
next
  case (Cons x rest)
  obtain cfg w c simulate where x: "x = (cfg, w, c, simulate)" by (cases x) auto
  with Cons.prems have c: "c \<noteq> Reset_all_locked" by simp
  from entry_keeps_stuck [OF Cons.prems(2-4) c, of cfg w simulate]
  have "i < length (entry cfg w c simulate rows)"
    and "entry cfg w c simulate rows ! i = rows ! i" by simp_all
  with Cons.IH [of "entry cfg w c simulate rows"] Cons.prems x
  show ?case by simp
qed

section \<open>A failed send\<close>

lemma lock_loop_txid:
  "txid (session (snd (snd (lock_loop w is upa pids s))) ! j) = txid (session s ! j)"
proof (induction "is" arbitrary: upa pids s)
  case Nil
  then show ?case by simp
next
  case (Cons i rest)
  have "txid ((session s)[i := (session s ! i)\<lparr>locked := True, lock_time := t\<rparr>] ! j) =
      txid (session s ! j)" for t
    by (rule nth_update_field) simp
  then show ?case by (simp add: Let_def Cons.IH)
qed

lemma payout_send_raised:
  assumes "getinfo w = Ok ()"
    and "unpaid_unlocked rows \<noteq> []"
    and "getbalance w 0 = Ok b"
    and "\<not> satoshi b < (\<Sum>i\<leftarrow>unpaid_unlocked rows. amount (rows ! i))"
    and "wallet_pass cfg = [] \<or> walletpassphrase w = Ok ()"
    and "settxfee w = Ok ()"
    and "sendmany w = Fails e"
    and "is_CoinRPCException e"
  shows "\<exists>s1. session s1 = durable s1 \<and> length (session s1) = length rows \<and>
           (\<forall>i\<in>set (unpaid_unlocked rows).
              locked (session s1 ! i) \<and> txid (session s1 ! i) = None) \<and>
           payout cfg w False (fresh rows) =
             send_failed w (satoshi b) (unpaid_unlocked rows) s1"
proof -
  let ?s1 = "emit WalletGetInfo (fresh rows)"
  let ?l = "lock_loop w (unpaid_unlocked rows) [] [] ?s1"
  let ?s4 = "commit (emit WalletGetBalance (snd (snd ?l)))"
  let ?m = "payout_many cfg w (recipients (fst ?l)) ?s4"
  have reply: "fst ?m = Fails e"
    using payout_many_reply [OF assms(5,6)] assms(7) by simp
  have "payout cfg w False (fresh rows) = send_failed w (satoshi b) (unpaid_unlocked rows) (snd ?m)"
    using assms(1-4,8) reply
    by (simp add: payout_def poke_rpc_def Let_def split_beta lock_loop_total emit_def fresh_def
          split: prod.splits reply.splits)
  moreover have "session (snd ?m) = durable (snd ?m)"
    by (simp add: commit_def)
  moreover have "length (session (snd ?m)) = length rows"
    by (simp add: commit_def emit_def fresh_def)
  moreover have "locked (session (snd ?m) ! i) \<and> txid (session (snd ?m) ! i) = None"
    if "i \<in> set (unpaid_unlocked rows)" for i
    using that
    by (simp add: commit_def emit_def fresh_def lock_loop_locks lock_loop_txid unpaid_unlocked_iff)
  ultimately show ?thesis by blast
qed

text \<open>
  Claim C1. When the send raises \<^verbatim>\<open>CoinRPCException\<close> and the balance read again differs
  from the balance read before, \<^verbatim>\<open>payout\<close> returns \<^verbatim>\<open>False\<close> and every selected row is
  locked in the database; and after any later runs of the program, none of them
  \<^verbatim>\<open>reset_all_locked\<close>, every one of these rows is still locked.
\<close>

theorem payout_ambiguous_failure_stays_locked:
  assumes "getinfo w = Ok ()"
    and "unpaid_unlocked rows \<noteq> []"
    and "getbalance w 0 = Ok b"
    and "\<not> satoshi b < (\<Sum>i\<leftarrow>unpaid_unlocked rows. amount (rows ! i))"
    and "wallet_pass cfg = [] \<or> walletpassphrase w = Ok ()"
    and "settxfee w = Ok ()"
    and "sendmany w = Fails e"
    and "is_CoinRPCException e"
    and "getbalance w 1 = Ok b'"
    and "satoshi b' \<noteq> satoshi b"
    and "payout cfg w False (fresh rows) = (r, s)"
    and "\<forall>(cfg', w', c, simulate)\<in>set later. c \<noteq> Reset_all_locked"
  shows "r = Return PyFalse \<and>
         (\<forall>i\<in>set (unpaid_unlocked rows).
            locked (durable s ! i) \<and> locked (runs later (durable s) ! i))"
proof -
  from payout_send_raised [OF assms(1-8)] obtain s1 where
    same: "session s1 = durable s1" and
    len: "length (session s1) = length rows" and
    locked: "\<forall>i\<in>set (unpaid_unlocked rows). locked (session s1 ! i) \<and> txid (session s1 ! i) = None" and
    run: "payout cfg w False (fresh rows) = send_failed w (satoshi b) (unpaid_unlocked rows) s1"
    by blast
  from run assms(9-11) have r: "r = Return PyFalse" and s: "s = emit WalletGetBalance s1"
    by (simp_all add: send_failed_def Let_def)
  have d: "durable s = session s1" by (simp add: s emit_def same)
  have "locked (durable s ! i) \<and> locked (runs later (durable s) ! i)"
    if i: "i \<in> set (unpaid_unlocked rows)" for i
  proof -
    from i have "i < length (durable s)" by (simp add: d len unpaid_unlocked_iff)
    moreover from i locked have "locked (durable s ! i)" "txid (durable s ! i) = None"
      by (simp_all add: d)
    ultimately show ?thesis
      using runs_keep_stuck [of later i "durable s"] assms(12) by (simp add: split_beta)
  qed
  with r show ?thesis by simp
qed

theorem payout_ambiguous_failure_stays_locked_witness:
  "unpaid_unlocked [row1, row2] = [0, 1] \<and>
   sendmany w_lost = Fails (WalletExn True True) \<and>
   getbalance w_lost 0 = Ok 20 \<and> getbalance w_lost 1 = Ok 19 \<and>
   fst (payout cfg0 w_lost False (fresh [row1, row2])) = Return PyFalse \<and>
   locked (durable (snd (payout cfg0 w_lost False (fresh [row1, row2]))) ! 0) \<and>
   locked (durable (snd (payout cfg0 w_lost False (fresh [row1, row2]))) ! 1) \<and>
   locked (runs [(cfg0, w0, Do_payout, False), (cfg0, w0, Associate_all, False),
                 (cfg0, w0, Pull_payouts, False)]
             (durable (snd (payout cfg0 w_lost False (fresh [row1, row2]))) ) ! 0) \<and>
   locked (runs [(cfg0, w0, Do_payout, False), (cfg0, w0, Associate_all, False),
                 (cfg0, w0, Pull_payouts, False)]
             (durable (snd (payout cfg0 w_lost False (fresh [row1, row2]))) ) ! 1)"
proof -
  let ?later = "[(cfg0, w0, Do_payout, False), (cfg0, w0, Associate_all, False),
                 (cfg0, w0, Pull_payouts, False)]"
  have sel: "unpaid_unlocked [row1, row2] = [0, 1]"
    by (simp add: unpaid_unlocked_def row1_def row2_def upt_rec)
  have h1: "getinfo w_lost = Ok ()" by (simp add: w_lost_def w0_def)
  have h2: "unpaid_unlocked [row1, row2] \<noteq> []" by (simp add: sel)
  have h3: "getbalance w_lost 0 = Ok 20" by (simp add: w_lost_def)
  have h4: "\<not> satoshi 20 < (\<Sum>i\<leftarrow>unpaid_unlocked [row1, row2]. amount ([row1, row2] ! i))"
    unfolding sel by (simp add: satoshi_def py_int_def row1_def row2_def)
  have h5: "wallet_pass cfg0 = [] \<or> walletpassphrase w_lost = Ok ()"
    by (simp add: w_lost_def w0_def)
  have h6: "settxfee w_lost = Ok ()" by (simp add: w_lost_def w0_def)
  have h7: "sendmany w_lost = Fails (WalletExn True True)" by (simp add: w_lost_def)
  have h8: "is_CoinRPCException (WalletExn True True)" by simp
  have h9: "getbalance w_lost 1 = Ok 19" by (simp add: w_lost_def)
  have h10: "satoshi 19 \<noteq> satoshi 20" by (simp add: satoshi_def py_int_def)
  have h12: "\<forall>(cfg', w', c, simulate)\<in>set ?later. c \<noteq> Reset_all_locked" by simp
  obtain r s where run: "payout cfg0 w_lost False (fresh [row1, row2]) = (r, s)"
    by (cases "payout cfg0 w_lost False (fresh [row1, row2])")
  note stuck = payout_ambiguous_failure_stays_locked
    [OF h1 h2 h3 h4 h5 h6 h7 h8 h9 h10 run h12, unfolded sel]
  from stuck have "r = Return PyFalse" by simp
  moreover from stuck have "locked (durable s ! 0)" "locked (runs ?later (durable s) ! 0)"
    by simp_all
  moreover from stuck have "locked (durable s ! 1)" "locked (runs ?later (durable s) ! 1)"
    by simp_all
  ultimately show ?thesis using sel h3 h7 h9 run by simp
qed

section \<open>A failed send with the balance unchanged\<close>

lemma unlock_loop_stays_unlocked:
  "\<not> locked (session s ! j) \<Longrightarrow> \<not> locked (session (unlock_loop is s) ! j)"
proof (induction "is" arbitrary: s)
  case Nil
  then show ?case by simp
next
  case (Cons i rest)
  have "\<not> locked ((session s)[i := (session s ! i)\<lparr>locked := False\<rparr>] ! j)"
    using Cons.prems
    by (cases "i < length (session s)"; cases "i = j"; simp add: not_less list_update_beyond)
  then show ?case by (simp add: Cons.IH)
qed

lemma unlock_loop_unlocks:
  "i \<in> set is \<Longrightarrow> i < length (session s) \<Longrightarrow> \<not> locked (session (unlock_loop is s) ! i)"
proof (induction "is" arbitrary: s)
  case Nil
  then show ?case by simp
next
  case (Cons i0 rest)
  show ?case
  proof (cases "i = i0")
    case True
    then show ?thesis using Cons.prems by (simp add: unlock_loop_stays_unlocked)
  next
    case False
    then show ?thesis using Cons.prems by (simp add: Cons.IH)
  qed
qed

lemma payout_clean_failure:
  assumes "getinfo w = Ok ()"
    and "unpaid_unlocked rows \<noteq> []"
    and "getbalance w 0 = Ok b"
    and "\<not> satoshi b < (\<Sum>i\<leftarrow>unpaid_unlocked rows. amount (rows ! i))"
    and "wallet_pass cfg = [] \<or> walletpassphrase w = Ok ()"
    and "settxfee w = Ok ()"
    and "sendmany w = Fails e"
    and "is_CoinRPCException e"
    and "getbalance w 1 = Ok b'"
    and "satoshi b' = satoshi b"
    and "payout cfg w False (fresh rows) = (r, s)"
  shows "r = Return PyNone \<and>
         (\<forall>i\<in>set (unpaid_unlocked rows).
            \<not> locked (session s ! i) \<and> locked (durable s ! i) \<and> txid (durable s ! i) = None)"
proof -
  from payout_send_raised [OF assms(1-8)] obtain s1 where
    same: "session s1 = durable s1" and
    len: "length (session s1) = length rows" and
    locked: "\<forall>i\<in>set (unpaid_unlocked rows). locked (session s1 ! i) \<and> txid (session s1 ! i) = None" and
    run: "payout cfg w False (fresh rows) = send_failed w (satoshi b) (unpaid_unlocked rows) s1"
    by blast
  from run assms(9-11) have r: "r = Return PyNone"
    and s: "s = unlock_loop (unpaid_unlocked rows) (emit WalletGetBalance s1)"
    by (simp_all add: send_failed_def Let_def)
  have d: "durable s = session s1" by (simp add: s emit_def same)
  have "\<not> locked (session s ! i)" if "i \<in> set (unpaid_unlocked rows)" for i
    using that unlock_loop_unlocks [of i "unpaid_unlocked rows" "emit WalletGetBalance s1"]
    by (simp add: s emit_def len unpaid_unlocked_iff)
  with r locked show ?thesis by (simp add: d)
qed

text \<open>
  Claim C3 fails on the code. In the spec's example (the send raises, the balance read
  again is the same) \<^verbatim>\<open>payout\<close> unlocks the two payouts in its session and ends without
  a commit (its last event is the second balance query): the database keeps both rows
  locked, which is what the process leaves behind, and the next \<^verbatim>\<open>payout\<close> selects
  nothing.
\<close>

theorem payout_unchanged_balance_not_committed:
  "sendmany w_refused = Fails (WalletExn True True) \<and>
   getbalance w_refused 0 = Ok 20 \<and> getbalance w_refused 1 = Ok 20 \<and>
   fst (payout cfg0 w_refused False (fresh [row1, row2])) = Return PyNone \<and>
   session (snd (payout cfg0 w_refused False (fresh [row1, row2]))) =
     [row1\<lparr>lock_time := Some 100\<rparr>, row2\<lparr>lock_time := Some 101\<rparr>] \<and>
   durable (snd (payout cfg0 w_refused False (fresh [row1, row2]))) =
     [row1\<lparr>locked := True, lock_time := Some 100\<rparr>,
      row2\<lparr>locked := True, lock_time := Some 101\<rparr>] \<and>
   last (trace (snd (payout cfg0 w_refused False (fresh [row1, row2])))) = WalletGetBalance \<and>
   entry cfg0 w_refused Do_payout False [row1, row2] =
     [row1\<lparr>locked := True, lock_time := Some 100\<rparr>,
      row2\<lparr>locked := True, lock_time := Some 101\<rparr>] \<and>
   unpaid_unlocked (entry cfg0 w_refused Do_payout False [row1, row2]) = []"
  by (intro conjI; code_simp)

section \<open>The recipients of the send\<close>

lemma recipients_test: "map_of (recipients user_payout_amounts) ''test'' = Some (PyFloat ''1.1'')"
  by (simp add: recipients_def update_conv')

text \<open>
  Claim C5 fails on the code. In the spec's example the two payouts of \<^verbatim>\<open>1ABC\<close> are summed
  to 750000000, but the dictionary handed to \<^verbatim>\<open>sendmany\<close> has a second entry: the key
  \<^verbatim>\<open>test\<close> with the float 1.1, which no selected payout names.
\<close>

theorem payout_sends_test_recipient:
  "user row1 = ''1ABC'' \<and> user row2 = ''1ABC'' \<and>
   unpaid_unlocked [row1, row2] = [0, 1] \<and>
   trace (snd (payout cfg0 w0 False (fresh [row1, row2]))) =
     [WalletGetInfo, WalletGetBalance,
      DbCommit [row1\<lparr>locked := True, lock_time := Some 100\<rparr>,
                row2\<lparr>locked := True, lock_time := Some 101\<rparr>],
      WalletPassphrase ''secret'', WalletSetTxFee (1 / 10000),
      WalletSendMany ''pool'' [(''1ABC'', PyInt 750000000), (''test'', PyFloat ''1.1'')],
      DbCommit [row1\<lparr>lock_time := Some 100, txid := Some ''tx1'', paid_time := Some 102\<rparr>,
                row2\<lparr>lock_time := Some 101, txid := Some ''tx1'', paid_time := Some 103\<rparr>]]"
  by (intro conjI; code_simp)

section \<open>The transactions of \<^verbatim>\<open>associate\<close>\<close>

text \<open>
  Claim C7 fails on the code. For two payouts paid by one transaction, which the remote
  accepts, \<^verbatim>\<open>associate\<close> commits twice: the first commit stores the first payout as
  associated and the second as not associated. The group is not marked in one
  transaction.
\<close>

theorem associate_commits_each_payout:
  "paid_unassociated [paid1, paid2] = [0, 1] \<and>
   group_loop [paid1, paid2] [0, 1] [] = [(Some ''tx1'', [0, 1])] \<and>
   update_payouts w0 (Some ''tx1'') [''ext-1'', ''ext-2''] = Ok True \<and>
   trace (snd (associate_all cfg0 w0 False (fresh [paid1, paid2]))) =
     [RemoteUpdate (Some ''tx1'') [''ext-1'', ''ext-2''] ''BTC'',
      DbCommit [paid1\<lparr>associated := True, assoc_time := Some 100\<rparr>, paid2],
      DbCommit [paid1\<lparr>associated := True, assoc_time := Some 100\<rparr>,
                paid2\<lparr>associated := True, assoc_time := Some 101\<rparr>]]"
  by (intro conjI; code_simp)

section \<open>Pulling payouts\<close>

lemma find_pid_None: "find (\<lambda>r. pid r = p) rows = None \<longleftrightarrow> p \<notin> pid ` set rows"
  by (auto simp: find_None_iff)

lemma pull_loop_ticks_trace [simp]:
  "trace (snd (pull_loop cfg w payouts counts s)) = trace s"
  by (induction cfg w payouts counts s rule: pull_loop.induct)
     (simp_all split: option.splits)

lemma valid_pids_Nil [simp]: "valid_pids cfg w [] = {}"
  by (simp add: valid_pids_def)

lemma valid_pids_Cons [simp]:
  "valid_pids cfg w ((u, a, p) # rest) =
     (if address_valid cfg w u then insert p (valid_pids cfg w rest) else valid_pids cfg w rest)"
  by (auto simp: valid_pids_def)

lemma pull_loop_spec:
  "\<exists>added.
     session (snd (pull_loop cfg w payouts (new, repeat, invalid) s)) = session s @ added \<and>
     distinct (map pid added) \<and>
     pid ` set added = valid_pids cfg w payouts - pid ` set (session s) \<and>
     fst (pull_loop cfg w payouts (new, repeat, invalid) s) =
       (new + length added,
        repeat + length (filter (\<lambda>(u, a, p). address_valid cfg w u) payouts) - length added,
        invalid + length (filter (\<lambda>(u, a, p). \<not> address_valid cfg w u) payouts)) \<and>
     length added \<le> length (filter (\<lambda>(u, a, p). address_valid cfg w u) payouts)"
proof (induction payouts arbitrary: new repeat invalid s)
  case Nil
  then show ?case by simp
next
  case (Cons x rest)
  obtain u a p where x: "x = (u, a, p)" by (cases x)
  show ?case
  proof (cases "address_valid cfg w u")
    case False
    with Cons.IH [of new repeat "invalid + 1" s] x show ?thesis
      by simp
  next
    case valid: True
    show ?thesis
    proof (cases "find (\<lambda>r. pid r = p) (session s)")
      case (Some r)
      then have "p \<in> pid ` set (session s)"
        using find_pid_None [of p "session s"] by auto
      with Cons.IH [of new "repeat + 1" invalid s] x valid Some show ?thesis
        by (auto simp: insert_absorb)
    next
      case None
      then have fresh_pid: "p \<notin> pid ` set (session s)" by (simp add: find_pid_None)
      let ?s1 = "s\<lparr>session := session s @ [new_payout p u a (utcnow w (ticks s))],
                    ticks := Suc (ticks s)\<rparr>"
      from Cons.IH [of "new + 1" repeat invalid ?s1] obtain added where
        sess: "session (snd (pull_loop cfg w rest (new + 1, repeat, invalid) ?s1)) =
                 session ?s1 @ added" and
        dist: "distinct (map pid added)" and
        pids: "pid ` set added = valid_pids cfg w rest - pid ` set (session ?s1)" and
        cnt: "fst (pull_loop cfg w rest (new + 1, repeat, invalid) ?s1) =
               (new + 1 + length added,
                repeat + length (filter (\<lambda>(u, a, p). address_valid cfg w u) rest) - length added,
                invalid + length (filter (\<lambda>(u, a, p). \<not> address_valid cfg w u) rest))" and
        le: "length added \<le> length (filter (\<lambda>(u, a, p). address_valid cfg w u) rest)"
        by blast
      let ?added = "new_payout p u a (utcnow w (ticks s)) # added"
      have p_new: "pid (new_payout p u a (utcnow w (ticks s))) = p"
        by (simp add: new_payout_def)
      have "session (snd (pull_loop cfg w (x # rest) (new, repeat, invalid) s)) = session s @ ?added"
        using x valid None sess by simp
      moreover have "distinct (map pid ?added)"
        using dist pids p_new by auto
      moreover have "pid ` set ?added = valid_pids cfg w (x # rest) - pid ` set (session s)"
        using pids p_new fresh_pid x valid by auto
      moreover have "fst (pull_loop cfg w (x # rest) (new, repeat, invalid) s) =
          (new + length ?added,
           repeat + length (filter (\<lambda>(u, a, p). address_valid cfg w u) (x # rest)) - length ?added,
           invalid + length (filter (\<lambda>(u, a, p). \<not> address_valid cfg w u) (x # rest)))"
        using x valid None cnt le by simp
      moreover have "length ?added \<le> length (filter (\<lambda>(u, a, p). address_valid cfg w u) (x # rest))"
        using x valid le by simp
      ultimately show ?thesis by blast
    qed
  qed
qed

lemma pull_payouts_run:
  assumes "get_payouts w = Ok payouts"
  shows "\<exists>added.
     distinct (map pid added) \<and>
     pid ` set added = valid_pids cfg w payouts - pid ` set rows \<and>
     length added \<le> length (filter (\<lambda>(u, a, p). address_valid cfg w u) payouts) \<and>
     fst (pull_payouts cfg w False (fresh rows)) = Return PyTrue \<and>
     session (snd (pull_payouts cfg w False (fresh rows))) = rows @ added \<and>
     durable (snd (pull_payouts cfg w False (fresh rows))) = rows @ added \<and>
     trace (snd (pull_payouts cfg w False (fresh rows))) =
       [RemoteGetPayouts (currency_code cfg), DbCommit (rows @ added),
        PullReport (length added)
          (length (filter (\<lambda>(u, a, p). address_valid cfg w u) payouts) - length added)
          (length (filter (\<lambda>(u, a, p). \<not> address_valid cfg w u) payouts))]"
proof -
  let ?s1 = "emit (RemoteGetPayouts (currency_code cfg)) (fresh rows)"
  let ?l = "pull_loop cfg w payouts (0, 0, 0) ?s1"
  from pull_loop_spec [of cfg w payouts 0 0 0 ?s1] obtain added where
    sess: "session (snd ?l) = session ?s1 @ added" and
    dist: "distinct (map pid added)" and
    pids: "pid ` set added = valid_pids cfg w payouts - pid ` set (session ?s1)" and
    cnt: "fst ?l = (0 + length added,
            0 + length (filter (\<lambda>(u, a, p). address_valid cfg w u) payouts) - length added,
            0 + length (filter (\<lambda>(u, a, p). \<not> address_valid cfg w u) payouts))" and
    le: "length added \<le> length (filter (\<lambda>(u, a, p). address_valid cfg w u) payouts)"
    by blast
  have s1: "session ?s1 = rows" "trace ?s1 = [RemoteGetPayouts (currency_code cfg)]"
    by (simp_all add: emit_def fresh_def)
  have "fst (pull_payouts cfg w False (fresh rows)) = Return PyTrue"
    using assms by (simp add: pull_payouts_def Let_def split_beta)
  moreover have "session (snd (pull_payouts cfg w False (fresh rows))) = rows @ added"
    using assms sess s1 by (simp add: pull_payouts_def Let_def split_beta commit_def emit_def)
  moreover have "durable (snd (pull_payouts cfg w False (fresh rows))) = rows @ added"
    using assms sess s1 by (simp add: pull_payouts_def Let_def split_beta commit_def emit_def)
  moreover have "trace (snd (pull_payouts cfg w False (fresh rows))) =
       [RemoteGetPayouts (currency_code cfg), DbCommit (rows @ added),
        PullReport (length added)
          (length (filter (\<lambda>(u, a, p). address_valid cfg w u) payouts) - length added)
          (length (filter (\<lambda>(u, a, p). \<not> address_valid cfg w u) payouts))]"
    using assms sess cnt s1 by (simp add: pull_payouts_def Let_def split_beta commit_def emit_def)
  moreover note dist le
  moreover have "pid ` set added = valid_pids cfg w payouts - pid ` set rows"
    using pids s1 by simp
  ultimately show ?thesis by blast
qed

text \<open>
  The claim C6 as the spec states it fails on the code: an entry whose pid is already in
  the table, but whose address does not pass the version check, is counted as invalid and
  not as a duplicate. Here \<^verbatim>\<open>ext-2\<close> is in the table, the remote sends it with the address
  \<^verbatim>\<open>bad\<close>, and the counters are 0 new, 0 repeated, 1 invalid.
\<close>

theorem pull_existing_pid_counted_invalid:
  "pid row2 = ''ext-2'' \<and>
   get_payouts w_bad_address = Ok [(''bad'', 5, ''ext-2'')] \<and>
   \<not> address_valid cfg0 w_bad_address ''bad'' \<and>
   fst (pull_payouts cfg0 w_bad_address False (fresh [row2])) = Return PyTrue \<and>
   durable (snd (pull_payouts cfg0 w_bad_address False (fresh [row2]))) = [row2] \<and>
   trace (snd (pull_payouts cfg0 w_bad_address False (fresh [row2]))) =
     [RemoteGetPayouts ''BTC'', DbCommit [row2], PullReport 0 0 1]"
  by (intro conjI; code_simp)

text \<open>What one real run of \<^verbatim>\<open>pull_payouts\<close> does to the table and what it counts.\<close>

lemma pull_payouts_real_run:
  assumes "get_payouts w = Ok payouts"
    and "pull_payouts cfg w False (fresh rows) = (r, s)"
  shows "r = Return PyTrue \<and> session s = durable s \<and>
    take (length rows) (durable s) = rows \<and>
    (\<forall>q\<in>set (drop (length rows) (durable s)). pid q \<notin> pid ` set rows) \<and>
    ((\<forall>(u, a, p)\<in>set payouts. p \<in> pid ` set rows) \<longrightarrow> durable s = rows) \<and>
    last (trace s) =
      PullReport (length (durable s) - length rows)
        (length (filter (\<lambda>(u, a, p). address_valid cfg w u) payouts) -
           (length (durable s) - length rows))
        (length (filter (\<lambda>(u, a, p). \<not> address_valid cfg w u) payouts)) \<and>
    length (durable s) - length rows \<le>
      length (filter (\<lambda>(u, a, p). address_valid cfg w u) payouts) \<and>
    (distinct (map pid rows) \<longrightarrow> distinct (map pid (durable s))) \<and>
    (\<forall>(u, a, p)\<in>set payouts. address_valid cfg w u \<longrightarrow> p \<in> pid ` set (durable s))"
proof -
  from pull_payouts_run [OF assms(1), of cfg rows] obtain added where
    dist: "distinct (map pid added)" and
    pids: "pid ` set added = valid_pids cfg w payouts - pid ` set rows" and
    le: "length added \<le> length (filter (\<lambda>(u, a, p). address_valid cfg w u) payouts)" and
    r0: "fst (pull_payouts cfg w False (fresh rows)) = Return PyTrue" and
    sess0: "session (snd (pull_payouts cfg w False (fresh rows))) = rows @ added" and
    dur0: "durable (snd (pull_payouts cfg w False (fresh rows))) = rows @ added" and
    tr0: "trace (snd (pull_payouts cfg w False (fresh rows))) =
          [RemoteGetPayouts (currency_code cfg), DbCommit (rows @ added),
           PullReport (length added)
             (length (filter (\<lambda>(u, a, p). address_valid cfg w u) payouts) - length added)
             (length (filter (\<lambda>(u, a, p). \<not> address_valid cfg w u) payouts))]"
    by blast
  have r: "r = Return PyTrue" using r0 unfolding assms(2) by simp
  have sess: "session s = rows @ added" using sess0 unfolding assms(2) by simp
  have dur: "durable s = rows @ added" using dur0 unfolding assms(2) by simp
  have tr: "trace s = [RemoteGetPayouts (currency_code cfg), DbCommit (rows @ added),
           PullReport (length added)
             (length (filter (\<lambda>(u, a, p). address_valid cfg w u) payouts) - length added)
             (length (filter (\<lambda>(u, a, p). \<not> address_valid cfg w u) payouts))]"
    using tr0 unfolding assms(2) by simp
  have new_pids: "pid q \<noteq> pid x" if "q \<in> set added" and "x \<in> set rows" for q x
  proof
    assume "pid q = pid x"
    with that(2) have "pid q \<in> pid ` set rows" by simp
    moreover from that(1) have "pid q \<in> pid ` set added" by simp
    ultimately show False unfolding pids by simp
  qed
  have unchanged: "added = []" if "\<forall>(u, a, p)\<in>set payouts. p \<in> pid ` set rows"
  proof -
    from that have "valid_pids cfg w payouts \<subseteq> pid ` set rows"
      by (auto simp: valid_pids_def)
    then have "valid_pids cfg w payouts - pid ` set rows = {}" by (simp add: Diff_eq_empty_iff)
    with pids have "pid ` set added = {}" by simp
    then show ?thesis by simp
  qed
  have distinct_after: "distinct (map pid (rows @ added))" if "distinct (map pid rows)"
  proof -
    from new_pids have "pid ` set rows \<inter> pid ` set added = {}" by fastforce
    with that dist show ?thesis by simp
  qed
  have present: "p \<in> pid ` set (rows @ added)"
    if "(u, a, p) \<in> set payouts" and "address_valid cfg w u" for u a p
  proof -
    from that have v: "p \<in> valid_pids cfg w payouts" by (auto simp: valid_pids_def)
    show ?thesis
    proof (cases "p \<in> pid ` set rows")
      case True
      then show ?thesis by (simp add: image_Un)
    next
      case False
      with v have "p \<in> valid_pids cfg w payouts - pid ` set rows" by simp
      then have "p \<in> pid ` set added" unfolding pids [symmetric] .
      then show ?thesis by (simp add: image_Un)
    qed
  qed
  have c2: "session s = durable s" by (simp add: sess dur)
  have c3: "take (length rows) (durable s) = rows" by (simp add: dur)
  have c4: "\<forall>q\<in>set (drop (length rows) (durable s)). pid q \<notin> pid ` set rows"
    unfolding dur using new_pids by (auto simp: image_iff)
  have c5: "(\<forall>(u, a, p)\<in>set payouts. p \<in> pid ` set rows) \<longrightarrow> durable s = rows"
  proof
    assume "\<forall>(u, a, p)\<in>set payouts. p \<in> pid ` set rows"
    then have "added = []" by (rule unchanged)
    then show "durable s = rows" by (simp add: dur)
  qed
  have c6: "last (trace s) =
      PullReport (length (durable s) - length rows)
        (length (filter (\<lambda>(u, a, p). address_valid cfg w u) payouts) -
           (length (durable s) - length rows))
        (length (filter (\<lambda>(u, a, p). \<not> address_valid cfg w u) payouts))"
    by (simp add: tr dur)
  have c7: "length (durable s) - length rows \<le>
      length (filter (\<lambda>(u, a, p). address_valid cfg w u) payouts)"
    using le by (simp add: dur)
  have c8: "distinct (map pid rows) \<longrightarrow> distinct (map pid (durable s))"
    unfolding dur using distinct_after by blast
  have c9: "\<forall>(u, a, p)\<in>set payouts. address_valid cfg w u \<longrightarrow> p \<in> pid ` set (durable s)"
    unfolding dur using present by blast
  from r c2 c3 c4 c5 c6 c7 c8 c9 show ?thesis by blast
qed

lemma count_distinct:
  "distinct (map f xs) \<Longrightarrow>
   length (filter (\<lambda>q. f q = p) xs) = (if p \<in> f ` set xs then 1 else 0)"
proof (induction xs)
  case Nil
  then show ?case by simp
next
  case (Cons x xs)
  then show ?case by (cases "f x = p") (auto simp: image_iff)
qed

lemma pull_payouts_simulated:
  assumes "get_payouts w = Ok payouts"
  shows "fst (pull_payouts cfg w True (fresh rows)) = Return PyTrue"
    and "durable (snd (pull_payouts cfg w True (fresh rows))) = rows"
    and "trace (snd (pull_payouts cfg w True (fresh rows))) =
           [RemoteGetPayouts (currency_code cfg), PullReport 0 0 0]"
  using assms by (simp_all add: pull_payouts_def Let_def emit_def fresh_def)

lemma pull_payouts_table:
  assumes "get_payouts w = Ok payouts"
  shows "pid ` set (durable (snd (pull_payouts cfg w False (fresh rows)))) =
           pid ` set rows \<union> valid_pids cfg w payouts"
proof -
  from pull_payouts_run [OF assms, of cfg rows] obtain added where
    pids: "pid ` set added = valid_pids cfg w payouts - pid ` set rows" and
    dur: "durable (snd (pull_payouts cfg w False (fresh rows))) = rows @ added"
    by blast
  have "pid ` set (rows @ added) = pid ` set rows \<union> pid ` set added"
    by (simp add: image_Un)
  also have "\<dots> = pid ` set rows \<union> (valid_pids cfg w payouts - pid ` set rows)"
    by (simp only: pids)
  also have "\<dots> = pid ` set rows \<union> valid_pids cfg w payouts"
    by (rule Un_Diff_cancel)
  finally show ?thesis by (simp only: dur)
qed

lemma entry_pull_appends:
  "\<exists>added. entry cfg w Pull_payouts simulate rows = rows @ added \<and>
     distinct (map pid added) \<and> pid ` set rows \<inter> pid ` set added = {}"
proof (cases "get_payouts w")
  case (Fails e)
  then have "entry cfg w Pull_payouts simulate rows = rows"
    by (simp add: entry_def call_def pull_payouts_def Let_def emit_def fresh_def)
  then show ?thesis by simp
next
  case (Ok payouts)
  show ?thesis
  proof (cases simulate)
    case True
    with Ok have "entry cfg w Pull_payouts simulate rows = rows"
      by (simp add: entry_def call_def pull_payouts_def Let_def emit_def fresh_def)
    then show ?thesis by simp
  next
    case False
    from pull_payouts_run [OF Ok, of cfg rows] obtain added where
      dist: "distinct (map pid added)" and
      pids: "pid ` set added = valid_pids cfg w payouts - pid ` set rows" and
      r0: "fst (pull_payouts cfg w False (fresh rows)) = Return PyTrue" and
      dur: "durable (snd (pull_payouts cfg w False (fresh rows))) = rows @ added"
      by blast
    from r0 dur False have "entry cfg w Pull_payouts simulate rows = rows @ added"
      by (simp add: entry_def call_def split_beta)
    moreover from pids have "pid ` set rows \<inter> pid ` set added = {}"
      by (simp add: Int_Diff Diff_triv Int_commute Diff_Int_distrib)
    ultimately show ?thesis using dist by blast
  qed
qed

lemma runs_pull_appends:
  assumes "\<forall>x\<in>set later. fst (snd (snd x)) = Pull_payouts" and "distinct (map pid rows)"
  shows "\<exists>more. runs later rows = rows @ more \<and> distinct (map pid (runs later rows))"
  using assms
proof (induction later arbitrary: rows)
  case Nil
  then show ?case by simp
next
  case (Cons x rest)
  obtain cfg w c simulate where x: "x = (cfg, w, c, simulate)" by (cases x) auto
  with Cons.prems(1) have c: "c = Pull_payouts" by simp
  from entry_pull_appends [of cfg w simulate rows] obtain added where
    app: "entry cfg w Pull_payouts simulate rows = rows @ added" and
    dist: "distinct (map pid added)" and
    disj: "pid ` set rows \<inter> pid ` set added = {}"
    by blast
  from Cons.prems(2) dist disj have "distinct (map pid (rows @ added))" by simp
  with Cons.IH [of "rows @ added"] Cons.prems(1) obtain more where
    "runs rest (rows @ added) = (rows @ added) @ more"
    and "distinct (map pid (runs rest (rows @ added)))"
    by auto
  with x c app show ?case by simp
qed

lemma runs_pull_one_record:
  assumes "\<forall>(cfg', w', c, simulate)\<in>set later. c = Pull_payouts" and "distinct (map pid rows)"
  shows "take (length rows) (runs later rows) = rows \<and>
         distinct (map pid (runs later rows)) \<and>
         (\<forall>p\<in>pid ` set rows. length (filter (\<lambda>q. pid q = p) (runs later rows)) = 1)"
proof -
  from assms(1) have "\<forall>x\<in>set later. fst (snd (snd x)) = Pull_payouts"
    by (simp add: split_beta)
  from runs_pull_appends [OF this assms(2)] obtain more where
    app: "runs later rows = rows @ more" and dist: "distinct (map pid (runs later rows))"
    by blast
  have "length (filter (\<lambda>q. pid q = p) (runs later rows)) = 1" if "p \<in> pid ` set rows" for p
  proof -
    from that app have "p \<in> pid ` set (runs later rows)" by (simp add: image_Un)
    with count_distinct [OF dist, of p] show ?thesis by simp
  qed
  with app dist show ?thesis by simp
qed

text \<open>
  Claim C6, amended. A real run of \<^verbatim>\<open>pull_payouts\<close> returns \<^verbatim>\<open>True\<close> after one commit. It
  keeps the rows of the table and appends rows whose pids were not in the table, so an
  entry whose pid is present inserts no row; when every pulled pid is present the table
  is unchanged. The entries that pass the address check are counted as new (one per
  appended row) or as repeated, the others as invalid. When the pids of the table were
  distinct, they are distinct afterwards, and a pid has exactly one row when it was in
  the table or was pulled with an address that passes the check, and no row otherwise,
  however often the list repeats it; any further runs of \<^verbatim>\<open>pull_payouts\<close> keep the table
  as a prefix and keep that one row. A simulated run returns \<^verbatim>\<open>True\<close>, commits nothing
  and counts nothing.
\<close>

theorem pull_payouts_idempotent:
  assumes "get_payouts w = Ok payouts"
    and "pull_payouts cfg w False (fresh rows) = (r, s)"
  shows "r = Return PyTrue \<and> session s = durable s \<and>
    take (length rows) (durable s) = rows \<and>
    (\<forall>q\<in>set (drop (length rows) (durable s)). pid q \<notin> pid ` set rows) \<and>
    ((\<forall>(u, a, p)\<in>set payouts. p \<in> pid ` set rows) \<longrightarrow> durable s = rows) \<and>
    last (trace s) =
      PullReport (length (durable s) - length rows)
        (length (filter (\<lambda>(u, a, p). address_valid cfg w u) payouts) -
           (length (durable s) - length rows))
        (length (filter (\<lambda>(u, a, p). \<not> address_valid cfg w u) payouts)) \<and>
    length (durable s) - length rows \<le>
      length (filter (\<lambda>(u, a, p). address_valid cfg w u) payouts) \<and>
    (distinct (map pid rows) \<longrightarrow> distinct (map pid (durable s))) \<and>
    (\<forall>(u, a, p)\<in>set payouts. address_valid cfg w u \<longrightarrow> p \<in> pid ` set (durable s)) \<and>
    (distinct (map pid rows) \<longrightarrow>
       (\<forall>p. length (filter (\<lambda>q. pid q = p) (durable s)) =
          (if p \<in> pid ` set rows \<or> (\<exists>u a. (u, a, p) \<in> set payouts \<and> address_valid cfg w u)
           then 1 else 0))) \<and>
    (distinct (map pid rows) \<longrightarrow>
       (\<forall>later. (\<forall>(cfg', w', c, simulate)\<in>set later. c = Pull_payouts) \<longrightarrow>
          take (length (durable s)) (runs later (durable s)) = durable s \<and>
          distinct (map pid (runs later (durable s))) \<and>
          (\<forall>p\<in>pid ` set (durable s).
             length (filter (\<lambda>q. pid q = p) (runs later (durable s))) = 1))) \<and>
    fst (pull_payouts cfg w True (fresh rows)) = Return PyTrue \<and>
    durable (snd (pull_payouts cfg w True (fresh rows))) = rows \<and>
    trace (snd (pull_payouts cfg w True (fresh rows))) =
      [RemoteGetPayouts (currency_code cfg), PullReport 0 0 0]"
proof -
  note real = pull_payouts_real_run [OF assms]
  from real have dist: "distinct (map pid rows) \<longrightarrow> distinct (map pid (durable s))"
    by (elim conjE)
  have table: "pid ` set (durable s) = pid ` set rows \<union> valid_pids cfg w payouts"
    using pull_payouts_table [OF assms(1), of cfg rows] unfolding assms(2) by simp
  have count: "\<forall>p. length (filter (\<lambda>q. pid q = p) (durable s)) =
          (if p \<in> pid ` set rows \<or> (\<exists>u a. (u, a, p) \<in> set payouts \<and> address_valid cfg w u)
           then 1 else 0)" if "distinct (map pid rows)"
  proof
    fix p
    from that dist have "distinct (map pid (durable s))" by simp
    from count_distinct [OF this, of p] show "length (filter (\<lambda>q. pid q = p) (durable s)) =
          (if p \<in> pid ` set rows \<or> (\<exists>u a. (u, a, p) \<in> set payouts \<and> address_valid cfg w u)
           then 1 else 0)"
      unfolding table by (simp add: valid_pids_def)
  qed
  have further: "\<forall>later. (\<forall>(cfg', w', c, simulate)\<in>set later. c = Pull_payouts) \<longrightarrow>
          take (length (durable s)) (runs later (durable s)) = durable s \<and>
          distinct (map pid (runs later (durable s))) \<and>
          (\<forall>p\<in>pid ` set (durable s).
             length (filter (\<lambda>q. pid q = p) (runs later (durable s))) = 1)"
    if "distinct (map pid rows)"
  proof (intro allI impI)
    fix later :: "(config \<times> world \<times> command \<times> bool) list"
    assume pulls: "\<forall>(cfg', w', c, simulate)\<in>set later. c = Pull_payouts"
    from that dist have "distinct (map pid (durable s))" by simp
    with pulls show "take (length (durable s)) (runs later (durable s)) = durable s \<and>
          distinct (map pid (runs later (durable s))) \<and>
          (\<forall>p\<in>pid ` set (durable s).
             length (filter (\<lambda>q. pid q = p) (runs later (durable s))) = 1)"
      by (rule runs_pull_one_record)
  qed
  note dry = pull_payouts_simulated [OF assms(1), of cfg rows]
  from count have c10: "distinct (map pid rows) \<longrightarrow>
       (\<forall>p. length (filter (\<lambda>q. pid q = p) (durable s)) =
          (if p \<in> pid ` set rows \<or> (\<exists>u a. (u, a, p) \<in> set payouts \<and> address_valid cfg w u)
           then 1 else 0))" by (rule impI)
  from further have c11: "distinct (map pid rows) \<longrightarrow>
       (\<forall>later. (\<forall>(cfg', w', c, simulate)\<in>set later. c = Pull_payouts) \<longrightarrow>
          take (length (durable s)) (runs later (durable s)) = durable s \<and>
          distinct (map pid (runs later (durable s))) \<and>
          (\<forall>p\<in>pid ` set (durable s).
             length (filter (\<lambda>q. pid q = p) (runs later (durable s))) = 1))" by (rule impI)
  from real c10 c11 dry show ?thesis by (elim conjE, intro conjI)
qed

theorem pull_payouts_idempotent_witness:
  "get_payouts w0 = Ok [(''1ABC'', 500000000, ''ext-1''), (''1ABC'', 250000000, ''ext-2'')] \<and>
   pid row1 = ''ext-1'' \<and>
   fst (pull_payouts cfg0 w0 False (fresh [row1])) = Return PyTrue \<and>
   take 1 (durable (snd (pull_payouts cfg0 w0 False (fresh [row1])))) = [row1] \<and>
   length (durable (snd (pull_payouts cfg0 w0 False (fresh [row1])))) = 2 \<and>
   distinct (map pid (durable (snd (pull_payouts cfg0 w0 False (fresh [row1]))))) \<and>
   last (trace (snd (pull_payouts cfg0 w0 False (fresh [row1])))) = PullReport 1 1 0 \<and>
   length (filter (\<lambda>q. pid q = ''ext-1'')
     (durable (snd (pull_payouts cfg0 w0 False (fresh [row1]))))) = 1 \<and>
   length (filter (\<lambda>q. pid q = ''ext-2'')
     (durable (snd (pull_payouts cfg0 w0 False (fresh [row1]))))) = 1 \<and>
   length (filter (\<lambda>q. pid q = ''ext-3'')
     (durable (snd (pull_payouts cfg0 w0 False (fresh [row1]))))) = 0 \<and>
   length (filter (\<lambda>q. pid q = ''ext-1'')
     (runs [(cfg0, w0, Pull_payouts, False), (cfg0, w0, Pull_payouts, False)]
        (durable (snd (pull_payouts cfg0 w0 False (fresh [row1])))))) = 1"
proof -
  let ?payouts = "[(''1ABC'', 500000000 :: int, ''ext-1''), (''1ABC'', 250000000, ''ext-2'')]"
  let ?later = "[(cfg0, w0, Pull_payouts, False), (cfg0, w0, Pull_payouts, False)]"
  have get: "get_payouts w0 = Ok ?payouts" by (simp add: w0_def)
  have p1: "pid row1 = ''ext-1''" by (simp add: row1_def)
  have valid: "address_valid cfg0 w0 ''1ABC''" by code_simp
  have len0: "length (durable (snd (pull_payouts cfg0 w0 False (fresh [row1])))) = 2"
    by code_simp
  obtain r s where run: "pull_payouts cfg0 w0 False (fresh [row1]) = (r, s)"
    by (cases "pull_payouts cfg0 w0 False (fresh [row1])")
  have len: "length (durable s) = 2" using len0 unfolding run by simp
  have uniq: "distinct (map pid [row1])" by simp
  note idem = pull_payouts_idempotent [OF get run]
  from idem have r: "r = Return PyTrue" by (elim conjE)
  from idem have "take (length [row1]) (durable s) = [row1]" by (elim conjE)
  then have keep: "take 1 (durable s) = [row1]" by simp
  from idem have "distinct (map pid [row1]) \<longrightarrow> distinct (map pid (durable s))" by (elim conjE)
  with uniq have dist: "distinct (map pid (durable s))" by simp
  from idem have "last (trace s) =
      PullReport (length (durable s) - length [row1])
        (length (filter (\<lambda>(u, a, p). address_valid cfg0 w0 u) ?payouts) -
           (length (durable s) - length [row1]))
        (length (filter (\<lambda>(u, a, p). \<not> address_valid cfg0 w0 u) ?payouts))"
    by (elim conjE)
  then have report: "last (trace s) = PullReport 1 1 0" by (simp add: len valid)
  from idem have "distinct (map pid [row1]) \<longrightarrow>
       (\<forall>p. length (filter (\<lambda>q. pid q = p) (durable s)) =
          (if p \<in> pid ` set [row1] \<or> (\<exists>u a. (u, a, p) \<in> set ?payouts \<and> address_valid cfg0 w0 u)
           then 1 else 0))"
    by (elim conjE)
  with uniq have count: "length (filter (\<lambda>q. pid q = p) (durable s)) =
          (if p \<in> pid ` set [row1] \<or> (\<exists>u a. (u, a, p) \<in> set ?payouts \<and> address_valid cfg0 w0 u)
           then 1 else 0)" for p
    by simp
  from count [of "''ext-1''"] have c1: "length (filter (\<lambda>q. pid q = ''ext-1'') (durable s)) = 1"
    by (simp add: p1)
  from count [of "''ext-2''"] have c2: "length (filter (\<lambda>q. pid q = ''ext-2'') (durable s)) = 1"
    by (simp add: p1 valid)
  from count [of "''ext-3''"] have c3: "length (filter (\<lambda>q. pid q = ''ext-3'') (durable s)) = 0"
    by (simp add: p1)
  from idem have "distinct (map pid [row1]) \<longrightarrow>
       (\<forall>later. (\<forall>(cfg', w', c, simulate)\<in>set later. c = Pull_payouts) \<longrightarrow>
          take (length (durable s)) (runs later (durable s)) = durable s \<and>
          distinct (map pid (runs later (durable s))) \<and>
          (\<forall>p\<in>pid ` set (durable s).
             length (filter (\<lambda>q. pid q = p) (runs later (durable s))) = 1))"
    by (elim conjE)
  with uniq have "(\<forall>(cfg', w', c, simulate)\<in>set ?later. c = Pull_payouts) \<longrightarrow>
          take (length (durable s)) (runs ?later (durable s)) = durable s \<and>
          distinct (map pid (runs ?later (durable s))) \<and>
          (\<forall>p\<in>pid ` set (durable s).
             length (filter (\<lambda>q. pid q = p) (runs ?later (durable s))) = 1)"
    by blast
  then have again: "\<forall>p\<in>pid ` set (durable s).
             length (filter (\<lambda>q. pid q = p) (runs ?later (durable s))) = 1"
    by simp
  from keep len have "row1 \<in> set (durable s)"
    by (metis in_set_takeD list.set_intros(1))
  then have "''ext-1'' \<in> pid ` set (durable s)" using p1 by force
  with again have c4: "length (filter (\<lambda>q. pid q = ''ext-1'') (runs ?later (durable s))) = 1"
    by blast
  from get p1 r keep len dist report c1 c2 c3 c4 show ?thesis unfolding run by simp
qed

section \<open>The fees of \<^verbatim>\<open>confirm_trans\<close>\<close>
















section \<open>The record invariants\<close>

subsection \<open>A transaction id, once stored, stays\<close>

lemma paid_as_fresh: "i < length rows \<Longrightarrow> txid (rows ! i) = Some t \<Longrightarrow> paid_as i t (fresh rows)"
  by (simp add: paid_as_def fresh_def)

lemma paid_as_emit [simp]: "paid_as i t (emit e s) = paid_as i t s"
  by (simp add: paid_as_def emit_def)

lemma paid_as_commit: "paid_as i t s \<Longrightarrow> paid_as i t (commit s)"
  by (simp add: paid_as_def commit_def)

lemma paid_as_rollback: "paid_as i t s \<Longrightarrow> paid_as i t (rollback s)"
  by (simp add: paid_as_def rollback_def)

lemma paid_as_poke: "paid_as i t s \<Longrightarrow> paid_as i t (snd (poke_rpc w s))"
  by (simp add: poke_rpc_def split: reply.splits)

lemma paid_as_payout_many: "paid_as i t s \<Longrightarrow> paid_as i t (snd (payout_many cfg w recip s))"
  by (simp add: paid_as_def)

lemma paid_as_lock_loop:
  "paid_as i t s \<Longrightarrow> paid_as i t (snd (snd (lock_loop w is upa pids s)))"
  by (simp add: paid_as_def lock_loop_txid)

lemma unlock_loop_txid: "txid (session (unlock_loop is s) ! j) = txid (session s ! j)"
proof (induction "is" arbitrary: s)
  case Nil
  then show ?case by simp
next
  case (Cons i rest)
  have "txid ((session s)[i := (session s ! i)\<lparr>locked := False\<rparr>] ! j) = txid (session s ! j)"
    by (rule nth_update_field) simp
  then show ?case by (simp add: Cons.IH)
qed

lemma paid_as_unlock_loop: "paid_as i t s \<Longrightarrow> paid_as i t (unlock_loop is s)"
  by (simp add: paid_as_def unlock_loop_txid)

lemma paid_as_paid_loop:
  "i \<notin> set is \<Longrightarrow> paid_as i t s \<Longrightarrow> paid_as i t (paid_loop w t' is s)"
  by (simp add: paid_as_def paid_loop_other)

lemma paid_as_record_paid:
  "i \<notin> set is \<Longrightarrow> paid_as i t s \<Longrightarrow> paid_as i t (snd (record_paid w t' is s))"
  by (simp add: record_paid_def paid_as_commit paid_as_paid_loop)

lemma paid_as_send_failed: "paid_as i t s \<Longrightarrow> paid_as i t (snd (send_failed w b is s))"
  by (simp add: send_failed_def Let_def paid_as_unlock_loop split: reply.splits)

lemma paid_as_payout:
  assumes "paid_as i t s"
  shows "paid_as i t (snd (payout cfg w simulate s))"
proof -
  let ?s1 = "snd (poke_rpc w s)"
  let ?sel = "unpaid_unlocked (session ?s1)"
  have s1: "paid_as i t ?s1" using assms by (rule paid_as_poke)
  then have "txid (session ?s1 ! i) = Some t" by (simp add: paid_as_def)
  then have out: "i \<notin> set ?sel" by (simp add: unpaid_unlocked_iff)
  let ?l = "lock_loop w ?sel [] [] ?s1"
  have s3: "paid_as i t (emit WalletGetBalance (snd (snd ?l)))"
    using s1 by (simp add: paid_as_lock_loop)
  show ?thesis
    using s1 s3 out
    by (simp add: payout_def Let_def split_beta paid_as_rollback paid_as_commit
          paid_as_record_paid paid_as_send_failed paid_as_payout_many
          split: prod.splits option.splits reply.splits)
qed

lemma paid_as_confirm_loop:
  "paid_as i t s \<Longrightarrow> paid_as i t (snd (confirm_loop cfg w objs tids fees s))"
  by (induction objs arbitrary: tids fees s)
     (auto simp: Let_def split: reply.splits option.splits wallet_fee.splits)

lemma paid_as_confirm_trans:
  "paid_as i t s \<Longrightarrow> paid_as i t (snd (confirm_trans cfg w simulate s))"
  by (simp add: confirm_trans_def Let_def split_beta paid_as_poke paid_as_confirm_loop
        split: option.splits reply.splits sum.splits)

lemma paid_as_pull_loop:
  assumes "paid_as i t s"
  shows "paid_as i t (snd (pull_loop cfg w payouts counts s))"
proof -
  obtain added where "session (snd (pull_loop cfg w payouts counts s)) = session s @ added"
    using pull_loop_appends by blast
  with assms show ?thesis by (simp add: paid_as_def nth_append)
qed

lemma paid_as_pull_payouts:
  "paid_as i t s \<Longrightarrow> paid_as i t (snd (pull_payouts cfg w simulate s))"
  by (simp add: pull_payouts_def Let_def split_beta paid_as_commit paid_as_pull_loop
        split: reply.splits)

lemma mark_loop_length [simp]: "length (session (mark_loop w is s)) = length (session s)"
  by (induction "is" arbitrary: s) (simp_all add: commit_def)

lemma mark_loop_txid: "txid (session (mark_loop w is s) ! j) = txid (session s ! j)"
proof (induction "is" arbitrary: s)
  case Nil
  then show ?case by simp
next
  case (Cons i rest)
  have "txid ((session s)[i := (session s ! i)\<lparr>associated := True, assoc_time := a\<rparr>] ! j) =
      txid (session s ! j)" for a
    by (rule nth_update_field) simp
  then show ?case by (simp add: Cons.IH commit_def)
qed

lemma paid_as_mark_loop: "paid_as i t s \<Longrightarrow> paid_as i t (mark_loop w is s)"
proof (induction "is" arbitrary: s)
  case Nil
  then show ?case by simp
next
  case (Cons j rest)
  have "txid ((session s)[j := (session s ! j)\<lparr>associated := True, assoc_time := a\<rparr>] ! i) =
      txid (session s ! i)" for a
    by (rule nth_update_field) simp
  with Cons.prems have "paid_as i t (commit (s\<lparr>session := (session s)[j := (session s ! j)
      \<lparr>associated := True, assoc_time := Some (utcnow w (ticks s))\<rparr>], ticks := Suc (ticks s)\<rparr>))"
    by (simp add: paid_as_def commit_def)
  then show ?case by (simp add: Cons.IH)
qed

lemma paid_as_associate:
  "paid_as i t s \<Longrightarrow> paid_as i t (snd (associate cfg w tx payouts s))"
  by (simp add: associate_def Let_def paid_as_mark_loop split: reply.splits)

lemma paid_as_associate_groups:
  "paid_as i t s \<Longrightarrow> paid_as i t (snd (associate_groups cfg w simulate groups s))"
proof (induction groups arbitrary: s)
  case Nil
  then show ?case by simp
next
  case (Cons g rest)
  obtain tx payouts where g: "g = (tx, payouts)" by (cases g)
  from Cons.prems have "paid_as i t (snd (associate cfg w tx payouts s))"
    by (rule paid_as_associate)
  with Cons g show ?case
    by (cases "associate cfg w tx payouts s") (auto split: outcome.splits)
qed

lemma paid_as_reset:
  "paid_as i t s \<Longrightarrow> paid_as i t (snd (reset_all_locked simulate s))"
  by (simp add: reset_all_locked_def paid_as_def commit_def)

lemma paid_as_dispatch: "paid_as i t s \<Longrightarrow> paid_as i t (snd (dispatch cfg w c simulate s))"
  by (cases c)
     (simp_all add: paid_as_confirm_trans paid_as_payout paid_as_pull_payouts paid_as_reset
        paid_as_associate_groups associate_all_def dump_incomplete_def)

lemma entry_keeps_txid:
  assumes "i < length rows" and "txid (rows ! i) = Some t"
  shows "i < length (entry cfg w c simulate rows) \<and> txid (entry cfg w c simulate rows ! i) = Some t"
proof -
  from paid_as_dispatch [OF paid_as_fresh [OF assms], of cfg w c simulate]
  have "paid_as i t (snd (call cfg w c simulate (fresh rows)))"
    by (simp add: call_def split_beta split: outcome.splits)
  then show ?thesis by (simp add: entry_def paid_as_def)
qed

subsection \<open>An associated payout has a transaction id\<close>

lemma sound_rows_update:
  assumes "\<forall>p\<in>set xs. sound_row p" and "i < length xs \<Longrightarrow> sound_row x"
  shows "\<forall>p\<in>set (xs[i := x]). sound_row p"
proof (cases "i < length xs")
  case True
  with assms set_update_subset_insert [of xs i x] show ?thesis by auto
next
  case False
  with assms(1) show ?thesis by (simp add: not_less list_update_beyond)
qed

lemma sound_fresh: "\<forall>p\<in>set rows. sound_row p \<Longrightarrow> sound (fresh rows)"
  by (simp add: sound_def fresh_def)

lemma sound_emit [simp]: "sound (emit e s) = sound s"
  by (simp add: sound_def emit_def)

lemma sound_commit: "sound s \<Longrightarrow> sound (commit s)"
  by (simp add: sound_def commit_def)

lemma sound_rollback: "sound s \<Longrightarrow> sound (rollback s)"
  by (simp add: sound_def rollback_def)

lemma sound_poke: "sound s \<Longrightarrow> sound (snd (poke_rpc w s))"
  by (simp add: poke_rpc_def split: reply.splits)

lemma sound_payout_many: "sound s \<Longrightarrow> sound (snd (payout_many cfg w recip s))"
  by (simp add: sound_def)

lemma sound_session_update:
  assumes "sound s" and "i < length (session s) \<Longrightarrow> sound_row x"
  shows "sound (s\<lparr>session := (session s)[i := x], ticks := n\<rparr>)"
  using assms sound_rows_update [of "session s" i x] by (simp add: sound_def)

lemma sound_lock_loop: "sound s \<Longrightarrow> sound (snd (snd (lock_loop w is upa pids s)))"
proof (induction "is" arbitrary: upa pids s)
  case Nil
  then show ?case by simp
next
  case (Cons i rest)
  have "sound_row ((session s ! i)\<lparr>locked := True, lock_time := Some (utcnow w (ticks s))\<rparr>)"
    if "i < length (session s)"
    using that Cons.prems by (simp add: sound_def sound_row_def)
  with Cons.prems have "sound (s\<lparr>session := (session s)[i := (session s ! i)
      \<lparr>locked := True, lock_time := Some (utcnow w (ticks s))\<rparr>], ticks := Suc (ticks s)\<rparr>)"
    by (rule sound_session_update)
  then show ?case by (simp add: Let_def Cons.IH)
qed

lemma sound_unlock_loop: "sound s \<Longrightarrow> sound (unlock_loop is s)"
proof (induction "is" arbitrary: s)
  case Nil
  then show ?case by simp
next
  case (Cons i rest)
  have "sound_row ((session s ! i)\<lparr>locked := False\<rparr>)" if "i < length (session s)"
    using that Cons.prems by (simp add: sound_def sound_row_def)
  with Cons.prems sound_rows_update [of "session s" i "(session s ! i)\<lparr>locked := False\<rparr>"]
  have "sound (s\<lparr>session := (session s)[i := (session s ! i)\<lparr>locked := False\<rparr>]\<rparr>)"
    by (simp add: sound_def)
  then show ?case by (simp add: Cons.IH)
qed

lemma sound_paid_loop: "sound s \<Longrightarrow> sound (paid_loop w t is s)"
proof (induction "is" arbitrary: s)
  case Nil
  then show ?case by simp
next
  case (Cons i rest)
  have "sound_row ((session s ! i)\<lparr>locked := False, txid := Some t,
      paid_time := Some (utcnow w (ticks s))\<rparr>)"
    by (simp add: sound_row_def)
  with Cons.prems have "sound (s\<lparr>session := (session s)[i := (session s ! i)
      \<lparr>locked := False, txid := Some t, paid_time := Some (utcnow w (ticks s))\<rparr>],
      ticks := Suc (ticks s)\<rparr>)"
    by (rule sound_session_update)
  then show ?case by (simp add: Cons.IH)
qed

lemma sound_record_paid: "sound s \<Longrightarrow> sound (snd (record_paid w t is s))"
  by (simp add: record_paid_def sound_commit sound_paid_loop)

lemma sound_send_failed: "sound s \<Longrightarrow> sound (snd (send_failed w b is s))"
  by (simp add: send_failed_def Let_def sound_unlock_loop split: reply.splits)

lemma sound_payout:
  assumes "sound s"
  shows "sound (snd (payout cfg w simulate s))"
proof -
  let ?s1 = "snd (poke_rpc w s)"
  let ?l = "lock_loop w (unpaid_unlocked (session ?s1)) [] [] ?s1"
  have s1: "sound ?s1" using assms by (rule sound_poke)
  then have s3: "sound (emit WalletGetBalance (snd (snd ?l)))"
    by (simp add: sound_lock_loop)
  show ?thesis
    using s1 s3
    by (simp add: payout_def Let_def split_beta sound_rollback sound_commit
          sound_record_paid sound_send_failed sound_payout_many
          split: prod.splits option.splits reply.splits)
qed

lemma sound_confirm_loop: "sound s \<Longrightarrow> sound (snd (confirm_loop cfg w objs tids fees s))"
  by (induction objs arbitrary: tids fees s)
     (auto simp: Let_def split: reply.splits option.splits wallet_fee.splits)

lemma sound_confirm_trans: "sound s \<Longrightarrow> sound (snd (confirm_trans cfg w simulate s))"
  by (simp add: confirm_trans_def Let_def split_beta sound_poke sound_confirm_loop
        split: option.splits reply.splits sum.splits)

lemma sound_pull_loop: "sound s \<Longrightarrow> sound (snd (pull_loop cfg w payouts counts s))"
proof (induction cfg w payouts counts s rule: pull_loop.induct)
  case (1 cfg w counts s)
  then show ?case by simp
next
  case (2 cfg w u a p rest new repeat invalid s)
  have "sound (s\<lparr>session := session s @ [new_payout p u a (utcnow w (ticks s))],
                 ticks := Suc (ticks s)\<rparr>)"
    using "2.prems" by (simp add: sound_def sound_row_def new_payout_def)
  with 2 show ?case by (auto split: option.splits)
qed

lemma sound_pull_payouts: "sound s \<Longrightarrow> sound (snd (pull_payouts cfg w simulate s))"
  by (simp add: pull_payouts_def Let_def split_beta sound_commit sound_pull_loop
        split: reply.splits)

lemma sound_reset: "sound s \<Longrightarrow> sound (snd (reset_all_locked simulate s))"
  by (auto simp: reset_all_locked_def sound_def sound_row_def commit_def)

lemma sound_mark_loop:
  "sound s \<Longrightarrow> \<forall>j\<in>set is. txid (session s ! j) \<noteq> None \<Longrightarrow> sound (mark_loop w is s)"
proof (induction "is" arbitrary: s)
  case Nil
  then show ?case by simp
next
  case (Cons i rest)
  let ?xs = "(session s)[i := (session s ! i)
      \<lparr>associated := True, assoc_time := Some (utcnow w (ticks s))\<rparr>]"
  let ?s1 = "commit (s\<lparr>session := ?xs, ticks := Suc (ticks s)\<rparr>)"
  from Cons.prems(2) have "sound_row ((session s ! i)
      \<lparr>associated := True, assoc_time := Some (utcnow w (ticks s))\<rparr>)"
    by (simp add: sound_row_def)
  with Cons.prems(1) have "sound (s\<lparr>session := ?xs, ticks := Suc (ticks s)\<rparr>)"
    by (rule sound_session_update)
  then have s1: "sound ?s1" by (rule sound_commit)
  have same: "txid (?xs ! j) = txid (session s ! j)" for j
    by (rule nth_update_field) simp
  from Cons.prems(2) have "\<forall>j\<in>set rest. txid (session ?s1 ! j) \<noteq> None"
    by (simp add: commit_def same)
  with s1 show ?case by (simp add: Cons.IH)
qed

lemma sound_associate:
  assumes "sound s" and "\<forall>j\<in>set payouts. txid (session s ! j) \<noteq> None"
  shows "sound (snd (associate cfg w tx payouts s))"
proof -
  let ?s1 = "emit (RemoteUpdate tx (map (\<lambda>i. pid (session s ! i)) payouts) (currency_code cfg)) s"
  have s1: "sound ?s1" using assms(1) by simp
  have "\<forall>j\<in>set payouts. txid (session ?s1 ! j) \<noteq> None"
    using assms(2) by (simp add: emit_def)
  with s1 have "sound (mark_loop w payouts ?s1)" by (rule sound_mark_loop)
  with s1 show ?thesis by (simp add: associate_def Let_def split: reply.splits)
qed

lemma associate_txid:
  "txid (session (snd (associate cfg w tx payouts s)) ! j) = txid (session s ! j)"
  by (simp add: associate_def Let_def mark_loop_txid emit_def split: reply.splits)

lemma sound_associate_groups:
  "sound s \<Longrightarrow> \<forall>g\<in>set groups. \<forall>j\<in>set (snd g). txid (session s ! j) \<noteq> None \<Longrightarrow>
   sound (snd (associate_groups cfg w simulate groups s))"
proof (induction groups arbitrary: s)
  case Nil
  then show ?case by simp
next
  case (Cons g rest)
  obtain tx payouts where g: "g = (tx, payouts)" by (cases g)
  let ?s1 = "snd (associate cfg w tx payouts s)"
  from Cons.prems g have s1: "sound ?s1" by (simp add: sound_associate)
  from Cons.prems(2) have later: "\<forall>g\<in>set rest. \<forall>j\<in>set (snd g). txid (session ?s1 ! j) \<noteq> None"
    by (simp add: associate_txid)
  from Cons.prems(2) have now: "\<forall>g\<in>set rest. \<forall>j\<in>set (snd g). txid (session s ! j) \<noteq> None"
    by simp
  show ?case
  proof (cases simulate)
    case True
    with Cons.IH [OF Cons.prems(1) now] g show ?thesis by simp
  next
    case False
    show ?thesis
    proof (cases "fst (associate cfg w tx payouts s)")
      case (Raise e)
      with False g s1 show ?thesis by (simp add: split_beta)
    next
      case (Return v)
      with False g Cons.IH [OF s1 later] show ?thesis by (simp add: split_beta)
    qed
  qed
qed

lemma sound_associate_all:
  assumes "sound s"
  shows "sound (snd (associate_all cfg w simulate s))"
proof -
  let ?groups = "group_loop (session s) (paid_unassociated (session s)) []"
  have "txid (session s ! j) \<noteq> None" if "g \<in> set ?groups" and "j \<in> set (snd g)" for g j
  proof -
    from that group_loop_members [of "session s" "paid_unassociated (session s)" "[]"]
    have "j \<in> set (paid_unassociated (session s))" by auto
    then show ?thesis by (simp add: paid_unassociated_iff)
  qed
  then have "\<forall>g\<in>set ?groups. \<forall>j\<in>set (snd g). txid (session s ! j) \<noteq> None" by blast
  with assms show ?thesis by (simp add: associate_all_def sound_associate_groups)
qed

lemma sound_dispatch: "sound s \<Longrightarrow> sound (snd (dispatch cfg w c simulate s))"
  by (cases c)
     (simp_all add: sound_confirm_trans sound_payout sound_pull_payouts sound_reset
        sound_associate_all dump_incomplete_def)

lemma entry_sound:
  assumes "\<forall>p\<in>set rows. sound_row p"
  shows "\<forall>p\<in>set (entry cfg w c simulate rows). sound_row p"
proof -
  from sound_dispatch [OF sound_fresh [OF assms], of cfg w c simulate]
  have "sound (snd (call cfg w c simulate (fresh rows)))"
    by (simp add: call_def split_beta split: outcome.splits)
  then show ?thesis by (simp add: entry_def sound_def)
qed

lemma runs_sound:
  "\<forall>p\<in>set rows. sound_row p \<Longrightarrow> \<forall>p\<in>set (runs later rows). sound_row p"
proof (induction later arbitrary: rows)
  case Nil
  then show ?case by simp
next
  case (Cons x rest)
  obtain cfg w c simulate where x: "x = (cfg, w, c, simulate)" by (cases x) auto
  from Cons.prems have "\<forall>p\<in>set (entry cfg w c simulate rows). sound_row p"
    by (rule entry_sound)
  then have "\<forall>p\<in>set (runs rest (entry cfg w c simulate rows)). sound_row p"
    by (rule Cons.IH)
  with x show ?case by simp
qed

lemma runs_keep_txid:
  "i < length rows \<Longrightarrow> txid (rows ! i) = Some t \<Longrightarrow>
   i < length (runs later rows) \<and> txid (runs later rows ! i) = Some t"
proof (induction later arbitrary: rows)
  case Nil
  then show ?case by simp
next
  case (Cons x rest)
  obtain cfg w c simulate where x: "x = (cfg, w, c, simulate)" by (cases x) auto
  from entry_keeps_txid [OF Cons.prems, of cfg w c simulate]
  have "i < length (entry cfg w c simulate rows)"
    and "txid (entry cfg w c simulate rows ! i) = Some t" by simp_all
  then have "i < length (runs rest (entry cfg w c simulate rows)) \<and>
      txid (runs rest (entry cfg w c simulate rows) ! i) = Some t"
    by (rule Cons.IH)
  with x show ?case by simp
qed

text \<open>
  Claim C8. Over any runs of the program (pull, payout, confirm, associate, reset, in any
  order and with any replies of the wallet and the remote): when every associated row of
  the table has a transaction id before, every associated row has one after; and a row
  that has the transaction id \<open>t\<close> before is still there and still has \<open>t\<close> after.
\<close>

theorem runs_preserve_record_invariants:
  "((\<forall>p\<in>set rows. associated p \<longrightarrow> txid p \<noteq> None) \<longrightarrow>
      (\<forall>p\<in>set (runs later rows). associated p \<longrightarrow> txid p \<noteq> None)) \<and>
   (\<forall>i t. i < length rows \<and> txid (rows ! i) = Some t \<longrightarrow>
      i < length (runs later rows) \<and> txid (runs later rows ! i) = Some t)"
  using runs_sound [of rows later] runs_keep_txid [of _ rows _ later]
  by (simp add: sound_row_def)

theorem runs_preserve_record_invariants_witness:
  "\<not> associated paid1 \<and> \<not> associated row2 \<and>
   txid paid1 = Some ''tx1'' \<and>
   txid (runs [(cfg0, w0, Associate_all, False), (cfg0, w0, Do_payout, False),
               (cfg0, w0, Reset_all_locked, False)] [paid1, row2] ! 0) = Some ''tx1'' \<and>
   associated (runs [(cfg0, w0, Associate_all, False), (cfg0, w0, Do_payout, False),
                     (cfg0, w0, Reset_all_locked, False)] [paid1, row2] ! 0) \<and>
   txid (runs [(cfg0, w0, Associate_all, False), (cfg0, w0, Do_payout, False),
               (cfg0, w0, Reset_all_locked, False)] [paid1, row2] ! 0) \<noteq> None"
proof -
  let ?later = "[(cfg0, w0, Associate_all, False), (cfg0, w0, Do_payout, False),
                 (cfg0, w0, Reset_all_locked, False)]"
  let ?rows = "[paid1, row2]"
  note inv = runs_preserve_record_invariants [of ?rows ?later]
  have unassociated: "\<not> associated paid1" "\<not> associated row2"
    by (simp_all add: paid1_def row1_def row2_def)
  then have before: "\<forall>p\<in>set ?rows. associated p \<longrightarrow> txid p \<noteq> None" by simp
  have paid: "txid paid1 = Some ''tx1''" by (simp add: paid1_def)
  from inv before have after: "\<forall>p\<in>set (runs ?later ?rows). associated p \<longrightarrow> txid p \<noteq> None"
    by blast
  from inv have "0 < length ?rows \<and> txid (?rows ! 0) = Some ''tx1'' \<longrightarrow>
      0 < length (runs ?later ?rows) \<and> txid (runs ?later ?rows ! 0) = Some ''tx1''"
    by blast
  with paid have kept: "0 < length (runs ?later ?rows)" "txid (runs ?later ?rows ! 0) = Some ''tx1''"
    by simp_all
  have assoc: "associated (runs ?later ?rows ! 0)" by code_simp
  from kept(1) have "runs ?later ?rows ! 0 \<in> set (runs ?later ?rows)" by (rule nth_mem)
  with after assoc have "txid (runs ?later ?rows ! 0) \<noteq> None" by blast
  with unassociated paid kept(2) assoc show ?thesis by blast
qed

end
